theory Spec2Isabelle
  imports Complex_Main "HOL-Library.Word"
begin

section \<open>Pixel buffers\<close>

text \<open>
  The drawing surface is an HTML canvas; \<^verbatim>\<open>getImageData\<close> exposes its bitmap as an
  \<^verbatim>\<open>ImageData\<close>: a width, a height and a \<^verbatim>\<open>Uint8ClampedArray\<close> of
  \<open>4 * width * height\<close> bytes, four (R, G, B, A) per pixel in row-major order.  The
  model identifies the bitmap of a canvas with these bytes (the conversion to and from
  premultiplied alpha inside a browser is not part of the model).
\<close>

type_synonym byte = "8 word"

record ImageData =
  width :: nat
  height :: nat
  data :: "byte list"

text \<open>The bytes of pixel \<open>p\<close> (counted row by row) and its alpha channel.\<close>

definition pixel :: "'a ImageData_scheme \<Rightarrow> nat \<Rightarrow> byte \<times> byte \<times> byte \<times> byte" where
  "pixel img p =
     (data img ! (4 * p), data img ! (4 * p + 1), data img ! (4 * p + 2), data img ! (4 * p + 3))"

definition alpha :: "'a ImageData_scheme \<Rightarrow> nat \<Rightarrow> byte" where
  "alpha img p = data img ! (4 * p + 3)"

text \<open>A buffer is well formed when it has pixels and its array has four bytes for each.\<close>

definition well_formed :: "'a ImageData_scheme \<Rightarrow> bool" where
  "well_formed img \<longleftrightarrow>
     0 < width img \<and> 0 < height img \<and> length (data img) = 4 * width img * height img"

section \<open>Canvas operations\<close>

text \<open>
  A canvas element is its bitmap together with the state of its 2D context that the
  handlers set: the current path (a list of subpaths, each a list of points in buffer
  coordinates) and the stroke style.  \<^verbatim>\<open>getContext('2d')\<close> always returns that context
  for a canvas that is never given another kind of context, so the guards
  \<^verbatim>\<open>if (!ctx) return\<close> of the source never fire and have no branch here.
\<close>

type_synonym point = "real \<times> real"

record canvas = ImageData +
  path :: "point list list"
  lineCap :: string
  lineJoin :: string
  lineWidth :: nat
  strokeStyle :: string
  globalCompositeOperation :: string

datatype error = IndexSizeError

text \<open>A new or resized canvas: every pixel transparent black, the context state reset.\<close>

definition createCanvas :: "nat \<Rightarrow> nat \<Rightarrow> canvas" where
  "createCanvas w h =
     \<lparr>width = w, height = h, data = replicate (4 * w * h) 0,
      path = [], lineCap = ''butt'', lineJoin = ''miter'', lineWidth = 1,
      strokeStyle = ''#000000'', globalCompositeOperation = ''source-over''\<rparr>"

text \<open>
  \<^verbatim>\<open>ctx.getImageData(0, 0, canvas.width, canvas.height)\<close>: a copy of the whole bitmap.
  The DOM raises \<^verbatim>\<open>IndexSizeError\<close> when the requested width or height is zero.
\<close>

definition getImageData :: "canvas \<Rightarrow> error + ImageData" where
  "getImageData c =
     (if width c = 0 \<or> height c = 0 then Inl IndexSizeError
      else Inr \<lparr>width = width c, height = height c, data = data c\<rparr>)"

text \<open>
  \<^verbatim>\<open>ctx.putImageData(img, 0, 0)\<close>: every canvas pixel \<open>(x, y)\<close> that lies inside the
  image takes the image's four bytes; pixels outside the image keep theirs.
\<close>

definition putImageData :: "ImageData \<Rightarrow> canvas \<Rightarrow> canvas" where
  "putImageData img c =
     c\<lparr>data :=
         map (\<lambda>k. let p = k div 4; x = p mod width c; y = p div width c in
                 if x < width img \<and> y < height img
                 then data img ! (4 * (y * width img + x) + k mod 4)
                 else data c ! k)
           [0 ..< 4 * width c * height c]\<rparr>"

text \<open>\<^verbatim>\<open>ctx.clearRect(0, 0, canvas.width, canvas.height)\<close>: the whole bitmap transparent.\<close>

definition clearRect :: "canvas \<Rightarrow> canvas" where
  "clearRect c = c\<lparr>data := replicate (4 * width c * height c) 0\<rparr>"

text \<open>
  \<^verbatim>\<open>fillStyle = '#000000'; fillRect(0, 0, width, height)\<close>: the whole bitmap opaque black.
\<close>

definition fillRect :: "canvas \<Rightarrow> canvas" where
  "fillRect c = c\<lparr>data := concat (replicate (width c * height c) [0, 0, 0, 255])\<rparr>"

section \<open>The mask compiler\<close>

text \<open>
  The loop of \<^verbatim>\<open>prepareAndSubmit\<close>:
  \<^verbatim>\<open>for (let i = 0; i < data.length; i += 4) { const alpha = data[i + 3]; if (alpha > 0) {...} }\<close>.
  Reading a typed array past its end gives \<^verbatim>\<open>undefined\<close>, which is not \<open>> 0\<close>; writing
  past its end does nothing, as \<open>list_update\<close> does.
\<close>

function maskLoop :: "nat \<Rightarrow> byte list \<Rightarrow> byte list \<Rightarrow> byte list" where
  "maskLoop i dat tData =
     (if i < length dat then
        maskLoop (i + 4) dat
          (if i + 3 < length dat \<and> 0 < dat ! (i + 3)
           then tData[i := 255, i + 1 := 255, i + 2 := 255, i + 3 := 255]
           else tData)
      else tData)"
  by pat_completeness auto
termination
  by (relation "measure (\<lambda>(i, dat, tData). length dat - i)") auto

declare maskLoop.simps [simp del]

text \<open>
  The binary mask of \<^verbatim>\<open>prepareAndSubmit\<close>: a temporary canvas of the drawing surface's
  size, filled black, on which the loop writes white wherever the surface has alpha.
  The result is the temporary canvas after \<^verbatim>\<open>putImageData(targetData, 0, 0)\<close>.
\<close>

definition binaryMask :: "canvas \<Rightarrow> error + canvas" where
  "binaryMask c =
     (let tempCanvas = fillRect (createCanvas (width c) (height c)) in
      case getImageData c of
        Inl e \<Rightarrow> Inl e
      | Inr userImgData \<Rightarrow>
          (case getImageData tempCanvas of
             Inl e \<Rightarrow> Inl e
           | Inr targetData \<Rightarrow>
               Inr (putImageData
                      (targetData\<lparr>data := maskLoop 0 (data userImgData) (data targetData)\<rparr>)
                      tempCanvas)))"

section \<open>Strings\<close>

text \<open>
  A JavaScript string is a sequence of UTF-16 code units, here natural numbers;
  \<open>js\<close> reads an ASCII literal as one.
\<close>

type_synonym jsstring = "nat list"

definition js :: "string \<Rightarrow> jsstring" where
  "js cs = map of_char cs"

text \<open>
  \<^verbatim>\<open>String.prototype.trim\<close> removes white space and line terminators from both ends:
  TAB, LF, VT, FF, CR, SP, NBSP, the Unicode space separators, LS, PS and ZWNBSP.
\<close>

definition isWhiteSpace :: "nat \<Rightarrow> bool" where
  "isWhiteSpace u \<longleftrightarrow>
     u \<in> {9, 10, 11, 12, 13, 32, 160, 5760, 8232, 8233, 8239, 8287, 12288, 65279}
     \<or> (8192 \<le> u \<and> u \<le> 8202)"

definition trim :: "jsstring \<Rightarrow> jsstring" where
  "trim str = rev (dropWhile isWhiteSpace (rev (dropWhile isWhiteSpace str)))"

text \<open>The class \<^verbatim>\<open>\w\<close> of a regular expression without the unicode flag: \<^verbatim>\<open>[A-Za-z0-9_]\<close>.\<close>

definition isWordChar :: "nat \<Rightarrow> bool" where
  "isWordChar u \<longleftrightarrow>
     (48 \<le> u \<and> u \<le> 57) \<or> (65 \<le> u \<and> u \<le> 90) \<or> u = 95 \<or> (97 \<le> u \<and> u \<le> 122)"

text \<open>\<open>stripPrefix lit str\<close>: the rest of \<open>str\<close> after the literal \<open>lit\<close>, if it starts with it.\<close>

definition stripPrefix :: "jsstring \<Rightarrow> jsstring \<Rightarrow> jsstring option" where
  "stripPrefix lit str =
     (if take (length lit) str = lit then Some (drop (length lit) str) else None)"

text \<open>
  A match of \<^verbatim>\<open>/^data:image\/\w+;base64,/\<close> at the start of the string, giving what follows
  it.  \<^verbatim>\<open>\w+\<close> is greedy and the next character it must meet, \<open>;\<close>, is not a word
  character, so the only candidate is the longest run of word characters.
\<close>

definition matchDataPrefix :: "jsstring \<Rightarrow> jsstring option" where
  "matchDataPrefix str =
     (case stripPrefix (js ''data:image/'') str of
        None \<Rightarrow> None
      | Some r \<Rightarrow>
          (if takeWhile isWordChar r = [] then None
           else stripPrefix (js '';base64,'') (dropWhile isWordChar r)))"

text \<open>\<^verbatim>\<open>maskBase64.replace(/^data:image\/\w+;base64,/, "")\<close> of \<^verbatim>\<open>generateStoreFrontDesign\<close>.\<close>

definition cleanMaskBase64 :: "jsstring \<Rightarrow> jsstring" where
  "cleanMaskBase64 maskBase64 =
     (case matchDataPrefix maskBase64 of None \<Rightarrow> maskBase64 | Some r \<Rightarrow> r)"

text \<open>The part of the request that carries the mask: \<^verbatim>\<open>{inlineData: {mimeType, data}}\<close>.\<close>

record inlineData =
  mimeType :: jsstring
  inline :: jsstring

definition maskPart :: "jsstring \<Rightarrow> inlineData" where
  "maskPart maskBase64 = \<lparr>mimeType = js ''image/png'', inline = cleanMaskBase64 maskBase64\<rparr>"

text \<open>
  \<^verbatim>\<open>canvas.toDataURL('image/png')\<close>.  The encoder \<open>enc\<close> (the base64 text of the PNG file of
  a bitmap) is a parameter.  A canvas without pixels gives \<^verbatim>\<open>"data:,"\<close>.
\<close>

definition toDataURL :: "(canvas \<Rightarrow> jsstring) \<Rightarrow> canvas \<Rightarrow> jsstring" where
  "toDataURL enc c =
     (if width c = 0 \<or> height c = 0 then js ''data:,''
      else js ''data:image/png;base64,'' @ enc c)"

section \<open>The design step\<close>

text \<open>
  A photo file, as far as the canvas sees it: the natural size of the image it decodes
  to.  The object URL made for a file is modelled by the file itself.
\<close>

record File =
  naturalWidth :: nat
  naturalHeight :: nat

datatype AppStep = REFERENCES | WORKSPACE | RESULT

text \<open>A call \<^verbatim>\<open>generateStoreFrontDesign(targetFile, maskBase64, references, prompt)\<close>.\<close>

record request =
  targetFile :: File
  mask :: jsstring
  prompt :: jsstring

text \<open>
  The state of \<^verbatim>\<open>App\<close> that \<^verbatim>\<open>DesignStep\<close> reads and writes through its props
  (\<open>targetImage\<close> to \<open>isGenerating\<close>, and the calls made to the generation service), the
  state and refs of \<^verbatim>\<open>DesignStep\<close> itself (\<open>brushSize\<close> to \<open>canvasRef\<close>), and the
  \<^verbatim>\<open>Image\<close> objects whose \<^verbatim>\<open>onload\<close> has not fired yet, each with the \<open>history\<close> its
  handler closed over.
\<close>

record state =
  targetImage :: "File option"
  targetImagePreview :: "File option"
  maskBase64 :: "jsstring option"
  userPrompt :: jsstring
  step :: AppStep
  isGenerating :: bool
  requests :: "request list"
  brushSize :: nat
  isDrawing :: bool
  history :: "ImageData list"
  canvasRef :: "canvas option"
  loading :: "(File \<times> ImageData list) list"

text \<open>\<^verbatim>\<open>DesignStep\<close> as first mounted: no photo, no canvas, brush 30, empty history.\<close>

definition initial :: state where
  "initial =
     \<lparr>targetImage = None, targetImagePreview = None, maskBase64 = None, userPrompt = [],
      step = WORKSPACE, isGenerating = False, requests = [],
      brushSize = 30, isDrawing = False, history = [], canvasRef = None, loading = []\<rparr>"

subsection \<open>Loading a photo\<close>

text \<open>\<^verbatim>\<open>handleFileUpload\<close>: the first chosen file becomes the target; the history is reset.\<close>

definition handleFileUpload :: "File list \<Rightarrow> state \<Rightarrow> state" where
  "handleFileUpload files s =
     (case files of
        [] \<Rightarrow> s
      | file # _ \<Rightarrow> s\<lparr>targetImage := Some file, targetImagePreview := Some file, history := []\<rparr>)"

text \<open>
  The render that follows: the canvas element exists exactly when there is a preview
  (a new element is 300 by 150 and transparent), and it is kept from render to render.
\<close>

definition render :: "state \<Rightarrow> state" where
  "render s =
     (case targetImagePreview s of
        None \<Rightarrow> s\<lparr>canvasRef := None\<rparr>
      | Some _ \<Rightarrow> (case canvasRef s of None \<Rightarrow> s\<lparr>canvasRef := Some (createCanvas 300 150)\<rparr> | Some _ \<Rightarrow> s))"

text \<open>
  The effect on \<^verbatim>\<open>[targetImagePreview]\<close>, run after that render: it starts loading the
  preview into an \<^verbatim>\<open>Image\<close>, whose \<^verbatim>\<open>onload\<close> closes over the \<open>history\<close> of this render.
\<close>

definition initEffect :: "state \<Rightarrow> state" where
  "initEffect s =
     (case (targetImagePreview s, canvasRef s) of
        (Some img, Some _) \<Rightarrow> s\<lparr>loading := loading s @ [(img, history s)]\<rparr>
      | _ \<Rightarrow> s)"

text \<open>
  \<^verbatim>\<open>img.onload\<close>: the canvas takes the natural size of the image (which resets its bitmap
  and context), is cleared, and if the closed-over history is empty the blank bitmap
  becomes the only snapshot.
\<close>

definition img_onload :: "File \<times> ImageData list \<Rightarrow> state \<Rightarrow> error + state" where
  "img_onload ld s =
     (case ld of (img, history0) \<Rightarrow>
        (case canvasRef s of
           None \<Rightarrow> Inr s
         | Some _ \<Rightarrow>
             (let canvas = clearRect (createCanvas (naturalWidth img) (naturalHeight img));
                  s1 = s\<lparr>canvasRef := Some canvas\<rparr>
              in if length history0 = 0 then
                   (case getImageData canvas of
                      Inl e \<Rightarrow> Inl e
                    | Inr blank \<Rightarrow> Inr (s1\<lparr>history := [blank]\<rparr>))
                 else Inr s1)))"

subsection \<open>Pointer coordinates\<close>

text \<open>
  A mouse event with its client coordinates, or a touch event with its list of touches,
  of which \<^verbatim>\<open>touchstart\<close> and \<^verbatim>\<open>touchmove\<close> always carry a first one.  Numbers are
  real; a division by zero, which gives an infinity or NaN in JavaScript, gives \<open>None\<close>.
\<close>

datatype pointer = MouseEvent real real | TouchEvent point "point list"

record DOMRect =
  rect_left :: real
  rect_top :: real
  rect_width :: real
  rect_height :: real

definition js_div :: "real \<Rightarrow> real \<Rightarrow> real option" where
  "js_div a b = (if b = 0 then None else Some (a / b))"

definition getCoordinates :: "pointer \<Rightarrow> canvas \<Rightarrow> DOMRect \<Rightarrow> real option \<times> real option" where
  "getCoordinates e canvas rect =
     (let scaleX = js_div (real (width canvas)) (rect_width rect);
          scaleY = js_div (real (height canvas)) (rect_height rect);
          (clientX, clientY) =
            (case e of TouchEvent t _ \<Rightarrow> t | MouseEvent cx cy \<Rightarrow> (cx, cy))
      in (map_option (\<lambda>k. (clientX - rect_left rect) * k) scaleX,
          map_option (\<lambda>k. (clientY - rect_top rect) * k) scaleY))"

subsection \<open>Paths and strokes\<close>

text \<open>
  \<^verbatim>\<open>beginPath\<close> empties the path; \<^verbatim>\<open>moveTo\<close> starts a subpath; \<^verbatim>\<open>lineTo\<close> extends the
  last subpath (or starts one); both ignore coordinates that are not finite.
  \<^verbatim>\<open>closePath\<close> starts a new subpath at the first point of the last one; it draws nothing.
\<close>

definition beginPath :: "canvas \<Rightarrow> canvas" where
  "beginPath c = c\<lparr>path := []\<rparr>"

definition moveTo :: "real option \<times> real option \<Rightarrow> canvas \<Rightarrow> canvas" where
  "moveTo xy c =
     (case xy of (Some x, Some y) \<Rightarrow> c\<lparr>path := path c @ [[(x, y)]]\<rparr> | _ \<Rightarrow> c)"

definition lineTo :: "real option \<times> real option \<Rightarrow> canvas \<Rightarrow> canvas" where
  "lineTo xy c =
     (case xy of
        (Some x, Some y) \<Rightarrow>
          (if path c = [] then c\<lparr>path := [[(x, y)]]\<rparr>
           else c\<lparr>path := butlast (path c) @ [last (path c) @ [(x, y)]]\<rparr>)
      | _ \<Rightarrow> c)"

definition closePath :: "canvas \<Rightarrow> canvas" where
  "closePath c =
     (if path c = [] then c
      else (case last (path c) of [] \<Rightarrow> c | p # _ \<Rightarrow> c\<lparr>path := path c @ [[p]]\<rparr>))"

text \<open>
  \<^verbatim>\<open>ctx.stroke()\<close>.  The rasteriser is a parameter: \<open>rast c k\<close> is byte \<open>k\<close> of the bitmap
  after the current path of \<open>c\<close> has been stroked on it.  A stroke never changes the
  size of the bitmap.
\<close>

type_synonym rasteriser = "canvas \<Rightarrow> nat \<Rightarrow> byte"

definition stroke :: "rasteriser \<Rightarrow> canvas \<Rightarrow> canvas" where
  "stroke rast c = c\<lparr>data := map (rast c) [0 ..< 4 * width c * height c]\<rparr>"

subsection \<open>The handlers\<close>

text \<open>
  Each handler runs on the state of the render it belongs to and returns the state of
  the next render.  An updater given to \<^verbatim>\<open>setHistory\<close> runs when React computes the next
  state: at the next render, after the handler has returned, or at once when the
  component has no update pending.  \<^verbatim>\<open>startDrawing\<close> paints nothing before that render,
  so the bitmap its updater reads is the bitmap at the call either way.  \<^verbatim>\<open>handleClear\<close>
  clears the bitmap right after it has queued its updater, so what its updater reads
  depends on the timing, which is part of the event.

  \<^verbatim>\<open>prev.slice(-n)\<close> is the last \<open>n\<close> entries and \<^verbatim>\<open>prev.slice(0, -1)\<close> all but the last.
\<close>

datatype timing = Eager | AtRender

definition slice_last :: "nat \<Rightarrow> 'a list \<Rightarrow> 'a list" where
  "slice_last n xs = drop (length xs - n) xs"

definition slice_init :: "'a list \<Rightarrow> 'a list" where
  "slice_init xs = take (length xs - 1) xs"

definition startDrawing :: "pointer \<Rightarrow> DOMRect \<Rightarrow> state \<Rightarrow> error + state" where
  "startDrawing e rect s =
     (case canvasRef s of
        None \<Rightarrow> Inr s
      | Some c \<Rightarrow>
          (case getImageData c of
             Inl err \<Rightarrow> Inl err
           | Inr snapshot \<Rightarrow>
               (let c1 = moveTo (getCoordinates e c rect) (beginPath c);
                    c2 = c1\<lparr>lineCap := ''round'', lineJoin := ''round'',
                            lineWidth := brushSize s,
                            strokeStyle := ''rgba(255, 0, 0, 0.5)'',
                            globalCompositeOperation := ''source-over''\<rparr>
                in Inr (s\<lparr>isDrawing := True,
                           history := slice_last 10 (history s) @ [snapshot],
                           canvasRef := Some c2\<rparr>))))"

definition draw :: "rasteriser \<Rightarrow> pointer \<Rightarrow> DOMRect \<Rightarrow> state \<Rightarrow> state" where
  "draw rast e rect s =
     (if \<not> isDrawing s then s
      else (case canvasRef s of
              None \<Rightarrow> s
            | Some c \<Rightarrow> s\<lparr>canvasRef := Some (stroke rast (lineTo (getCoordinates e c rect) c))\<rparr>))"

definition stopDrawing :: "state \<Rightarrow> state" where
  "stopDrawing s =
     (if \<not> isDrawing s then s
      else (case canvasRef s of
              None \<Rightarrow> s
            | Some c \<Rightarrow> s\<lparr>isDrawing := False, canvasRef := Some (closePath c)\<rparr>))"

definition handleUndo :: "state \<Rightarrow> state" where
  "handleUndo s =
     (if length (history s) > 0 then
        (case canvasRef s of
           None \<Rightarrow> s
         | Some c \<Rightarrow>
             (let previousState = history s ! (length (history s) - 1)
              in s\<lparr>canvasRef := Some (putImageData previousState c),
                    history := slice_init (history s)\<rparr>))
      else s)"

text \<open>
  \<^verbatim>\<open>handleClear\<close>: the updater \<^verbatim>\<open>prev => [...prev.slice(-10), ctx.getImageData(...)]\<close> is
  queued, then \<^verbatim>\<open>clearRect\<close> runs.  The snapshot is of the bitmap before the clear when
  the updater runs at once, and of the cleared bitmap when it runs at the next render.
\<close>

definition handleClear :: "timing \<Rightarrow> state \<Rightarrow> error + state" where
  "handleClear t s =
     (case canvasRef s of
        None \<Rightarrow> Inr s
      | Some c \<Rightarrow>
          (let cleared = clearRect c in
           case getImageData (case t of Eager \<Rightarrow> c | AtRender \<Rightarrow> cleared) of
             Inl err \<Rightarrow> Inl err
           | Inr snapshot \<Rightarrow>
               Inr (s\<lparr>history := slice_last 10 (history s) @ [snapshot],
                      canvasRef := Some cleared\<rparr>)))"

subsection \<open>Submission\<close>

text \<open>
  \<^verbatim>\<open>handleDesignGeneration\<close> of \<^verbatim>\<open>App\<close>, up to its call of the generation service.  The
  function is a closure of a render of \<^verbatim>\<open>App\<close>: it reads \<open>targetImage\<close>, \<open>maskBase64\<close>
  and \<open>userPrompt\<close> as they were in that render (\<open>r\<close>), while its state updates act on
  the pending state (\<open>s\<close>).  An empty string is falsy, as \<^verbatim>\<open>null\<close> is.
\<close>

definition handleDesignGeneration :: "state \<Rightarrow> state \<Rightarrow> state" where
  "handleDesignGeneration r s =
     (case (targetImage r, maskBase64 r) of
        (Some f, Some m) \<Rightarrow>
          (if m = [] then s
           else s\<lparr>step := RESULT, isGenerating := True,
                  requests := requests s @ [\<lparr>targetFile = f, mask = m, prompt = userPrompt r\<rparr>]\<rparr>)
      | _ \<Rightarrow> s)"

text \<open>
  \<^verbatim>\<open>prepareAndSubmit\<close>: compile the mask, store its data URL with \<^verbatim>\<open>setMaskBase64\<close>, then
  call \<^verbatim>\<open>onNext\<close>, which is the \<^verbatim>\<open>handleDesignGeneration\<close> of the render that this
  handler itself belongs to.
\<close>

definition prepareAndSubmit :: "(canvas \<Rightarrow> jsstring) \<Rightarrow> state \<Rightarrow> error + state" where
  "prepareAndSubmit enc s =
     (case (canvasRef s, targetImagePreview s) of
        (Some c, Some _) \<Rightarrow>
          (case binaryMask c of
             Inl err \<Rightarrow> Inl err
           | Inr tempCanvas \<Rightarrow>
               (let maskDataUrl = toDataURL enc tempCanvas
                in Inr (handleDesignGeneration s (s\<lparr>maskBase64 := Some maskDataUrl\<rparr>))))
      | _ \<Rightarrow> Inr s)"

text \<open>The Generate button: \<^verbatim>\<open>disabled={!targetImage || !userPrompt.trim()}\<close>.\<close>

definition generateDisabled :: "state \<Rightarrow> bool" where
  "generateDisabled s \<longleftrightarrow> targetImage s = None \<or> trim (userPrompt s) = []"

subsection \<open>Events\<close>

text \<open>
  \<^verbatim>\<open>App\<close> renders \<^verbatim>\<open>DesignStep\<close> only in the workspace step.  When the user leaves the
  step and comes back, the component is mounted anew: its own state starts afresh, the
  state of \<^verbatim>\<open>App\<close> stays, and the effect loads the preview again.  Images that were still
  loading belong to the old canvas ref and do nothing any more.
\<close>

definition remount :: "state \<Rightarrow> state" where
  "remount s =
     initEffect (render (s\<lparr>step := WORKSPACE, brushSize := 30, isDrawing := False,
                            history := [], canvasRef := None, loading := []\<rparr>))"

text \<open>\<^verbatim>\<open>resetApp\<close> of \<^verbatim>\<open>App\<close> (the fields modelled here).\<close>

definition resetApp :: "state \<Rightarrow> state" where
  "resetApp s =
     s\<lparr>step := REFERENCES, targetImage := None, targetImagePreview := None,
       maskBase64 := None, userPrompt := []\<rparr>"

text \<open>
  The events of the screen.  \<open>ImgLoad k\<close> fires the \<^verbatim>\<open>onload\<close> of the \<open>k\<close>-th image still
  loading; \<open>Remount\<close> is a visit to another step and back; \<open>StartOver\<close> is
  \<^verbatim>\<open>resetApp\<close> followed by the way back to this step; a click on Clear comes with the
  timing of its updater.  Every event is accepted in every state, and a handler that
  throws ends the run with its exception.
\<close>

datatype event =
    FileUpload "File list"
  | ImgLoad nat
  | PointerDown pointer DOMRect
  | PointerMove pointer DOMRect
  | PointerUp
  | UndoClick
  | ClearClick timing
  | BrushSize nat
  | Prompt jsstring
  | GenerateClick
  | Remount
  | StartOver

fun handle :: "rasteriser \<Rightarrow> (canvas \<Rightarrow> jsstring) \<Rightarrow> event \<Rightarrow> state \<Rightarrow> error + state" where
  "handle rast enc (FileUpload files) s =
     Inr (if files = [] then s else initEffect (render (handleFileUpload files s)))"
| "handle rast enc (ImgLoad k) s =
     (if k < length (loading s)
      then img_onload (loading s ! k) (s\<lparr>loading := take k (loading s) @ drop (Suc k) (loading s)\<rparr>)
      else Inr s)"
| "handle rast enc (PointerDown e rect) s = startDrawing e rect s"
| "handle rast enc (PointerMove e rect) s = Inr (draw rast e rect s)"
| "handle rast enc PointerUp s = Inr (stopDrawing s)"
| "handle rast enc UndoClick s = Inr (handleUndo s)"
| "handle rast enc (ClearClick t) s = handleClear t s"
| "handle rast enc (BrushSize n) s = Inr (s\<lparr>brushSize := n\<rparr>)"
| "handle rast enc (Prompt str) s = Inr (s\<lparr>userPrompt := str\<rparr>)"
| "handle rast enc GenerateClick s =
     (if generateDisabled s then Inr s else prepareAndSubmit enc s)"
| "handle rast enc Remount s = Inr (remount s)"
| "handle rast enc StartOver s = Inr (remount (resetApp s))"

fun run :: "rasteriser \<Rightarrow> (canvas \<Rightarrow> jsstring) \<Rightarrow> event list \<Rightarrow> state \<Rightarrow> error + state" where
  "run rast enc [] s = Inr s"
| "run rast enc (ev # evs) s =
     (case handle rast enc ev s of Inl err \<Rightarrow> Inl err | Inr s' \<Rightarrow> run rast enc evs s')"

subsection \<open>Consistency of a state\<close>

text \<open>
  What every state of a run satisfies: snapshots are only taken of a mounted canvas,
  the bitmap has four bytes per pixel, every snapshot has the size of the canvas, and
  every image still loading closed over an empty history.
\<close>

definition consistent :: "state \<Rightarrow> bool" where
  "consistent s \<longleftrightarrow>
     (history s \<noteq> [] \<longrightarrow> canvasRef s \<noteq> None) \<and>
     (\<forall>c. canvasRef s = Some c \<longrightarrow>
        length (data c) = 4 * width c * height c \<and>
        (\<forall>h \<in> set (history s).
           width h = width c \<and> height h = height c \<and>
           length (data h) = 4 * width c * height c)) \<and>
     (\<forall>ld \<in> set (loading s). snd ld = [])"

subsection \<open>Example inputs\<close>

text \<open>
  Two small photos, the rectangle of a canvas on screen, a brush that covers the whole
  bitmap with the preview colour \<^verbatim>\<open>rgba(255, 0, 0, 0.5)\<close>, and an encoder that lists the
  bytes of the bitmap.
\<close>

definition photo1 :: File where
  "photo1 = \<lparr>naturalWidth = 1, naturalHeight = 1\<rparr>"

definition photo2 :: File where
  "photo2 = \<lparr>naturalWidth = 2, naturalHeight = 1\<rparr>"

definition onScreen :: DOMRect where
  "onScreen = \<lparr>rect_left = 10, rect_top = 20, rect_width = 400, rect_height = 300\<rparr>"

definition coverAll :: rasteriser where
  "coverAll c k = (if k mod 4 = 0 then 255 else if k mod 4 = 3 then 128 else 0)"

definition listBytes :: "canvas \<Rightarrow> jsstring" where
  "listBytes c = map unat (data c)"

text \<open>A surface of two pixels, the first painted with the preview colour.\<close>

definition halfPainted :: canvas where
  "halfPainted = (createCanvas 2 1)\<lparr>data := [255, 0, 0, 128, 0, 0, 0, 0]\<rparr>"

section \<open>The compiled mask\<close>

lemma maskLoop_length: "length (maskLoop i dat t) = length t"
  by (induction i dat t rule: maskLoop.induct) (subst maskLoop.simps, simp)

lemma nth_concat_replicate4:
  "k < 4 * n \<Longrightarrow> concat (replicate n [a, b, c, d]) ! k = [a, b, c, d] ! (k mod 4)"
proof (induction n arbitrary: k)
  case 0
  then show ?case by simp
next
  case (Suc n)
  show ?case
  proof (cases "k < 4")
    case True
    then have "k = 0 \<or> k = 1 \<or> k = 2 \<or> k = 3" by arith
    then show ?thesis by auto
  next
    case False
    then have "concat (replicate (Suc n) [a, b, c, d]) ! k =
        concat (replicate n [a, b, c, d]) ! (k - 4)"
      by (simp add: nth_Cons' eval_nat_numeral)
    also have "\<dots> = [a, b, c, d] ! ((k - 4) mod 4)" using Suc False by simp
    also have "(k - 4) mod 4 = k mod 4" using False by (metis le_mod_geq not_less)
    finally show ?thesis .
  qed
qed

text \<open>
  The loop started at pixel \<open>j\<close> turns the four bytes of every later pixel with alpha
  to 255 and leaves every other byte alone.
\<close>

lemma maskLoop_nth:
  assumes "length dat = 4 * n" "length t = 4 * n" "k < 4 * n"
  shows "maskLoop (4 * j) dat t ! k =
           (if 4 * j \<le> k \<and> 0 < dat ! (4 * (k div 4) + 3) then 255 else t ! k)"
  using assms
proof (induction "n - j" arbitrary: j t)
  case 0
  then have "\<not> 4 * j < length dat" by simp
  then show ?case using 0 by (subst maskLoop.simps) simp
next
  case (Suc m)
  then have lt: "4 * j < length dat" and j: "j < n" by simp_all
  have i3: "4 * j + 3 < length dat" using j Suc.prems by simp
  let ?t' = "(if 0 < dat ! (4 * j + 3)
           then t[4 * j := 255, 4 * j + 1 := 255, 4 * j + 2 := 255, 4 * j + 3 := 255]
           else t)"
  have len: "length ?t' = 4 * n" using Suc.prems by simp
  have step: "maskLoop (4 * j) dat t = maskLoop (4 * Suc j) dat ?t'"
    using lt i3 by (subst maskLoop.simps) (simp add: add.commute)
  have m: "m = n - Suc j" using Suc.hyps by simp
  have IH: "maskLoop (4 * Suc j) dat ?t' ! k =
     (if 4 * Suc j \<le> k \<and> 0 < dat ! (4 * (k div 4) + 3) then 255 else ?t' ! k)"
    by (rule Suc.hyps(1)[OF m Suc.prems(1) len Suc.prems(3)])
  show ?case
  proof (cases "4 * Suc j \<le> k")
    case True
    then have "?t' ! k = t ! k" by simp
    with True IH step show ?thesis by simp
  next
    case False
    show ?thesis
    proof (cases "4 * j \<le> k")
      case True
      with False have kd: "k div 4 = j" by simp
      from True False have "k = 4 * j \<or> k = 4 * j + 1 \<or> k = 4 * j + 2 \<or> k = 4 * j + 3"
        by arith
      then have "?t' ! k = (if 0 < dat ! (4 * j + 3) then 255 else t ! k)"
        using Suc.prems j by auto
      with False True IH step kd show ?thesis by simp
    next
      case before: False
      then have "?t' ! k = t ! k" by simp
      with False before IH step show ?thesis by simp
    qed
  qed
qed

text \<open>An image of the size of the canvas replaces the whole bitmap.\<close>

lemma putImageData_same_size:
  assumes "width img = width c" "height img = height c"
    and "length (data img) = 4 * width c * height c"
  shows "data (putImageData img c) = data img"
proof (rule nth_equalityI)
  show "length (data (putImageData img c)) = length (data img)"
    using assms by (simp add: putImageData_def)
next
  fix k assume "k < length (data (putImageData img c))"
  then have k: "k < 4 * width c * height c" by (simp add: putImageData_def)
  then have w: "0 < width c" by (cases "width c") auto
  have p: "k div 4 < width c * height c"
    using k by (simp add: less_mult_imp_div_less mult.commute mult.assoc)
  have x: "(k div 4) mod width c < width c" using w by simp
  have y: "(k div 4) div width c < height c"
    using p w by (simp add: less_mult_imp_div_less mult.commute)
  have "4 * ((k div 4) div width c * width c + (k div 4) mod width c) + k mod 4 = k"
    by simp
  then show "data (putImageData img c) ! k = data img ! k"
    using k x y assms by (simp add: putImageData_def Let_def)
qed

lemma putImageData_size [simp]:
  "width (putImageData img c) = width c" "height (putImageData img c) = height c"
  "length (data (putImageData img c)) = 4 * width c * height c"
  by (simp_all add: putImageData_def)

text \<open>The mask, pixel by pixel.\<close>

lemma binaryMask_correct:
  assumes wf: "well_formed c"
  shows "\<exists>m. binaryMask c = Inr m \<and> width m = width c \<and> height m = height c \<and>
           length (data m) = 4 * width c * height c \<and>
           (\<forall>p < width c * height c.
              pixel m p = (if 0 < alpha c p then (255, 255, 255, 255) else (0, 0, 0, 255)))"
proof -
  let ?n = "width c * height c"
  let ?black = "concat (replicate ?n [0, 0, 0, 255 :: byte])"
  let ?temp = "fillRect (createCanvas (width c) (height c))"
  let ?t = "maskLoop 0 (data c) ?black"
  let ?img = "\<lparr>width = width c, height = height c, data = ?t\<rparr>"
  from wf have pos: "width c \<noteq> 0" "height c \<noteq> 0" and len: "length (data c) = 4 * ?n"
    by (simp_all add: well_formed_def)
  have lenb: "length ?black = 4 * ?n" by (simp add: length_concat sum_list_replicate)
  have tw: "width ?temp = width c" "height ?temp = height c" "data ?temp = ?black"
    by (simp_all add: fillRect_def createCanvas_def)
  have bm: "binaryMask c = Inr (putImageData ?img ?temp)"
    using pos by (simp add: binaryMask_def getImageData_def Let_def tw)
  have lent: "length ?t = 4 * ?n" by (simp add: maskLoop_length lenb)
  have dat: "data (putImageData ?img ?temp) = ?t"
    by (rule putImageData_same_size [of ?img ?temp, simplified]) (simp_all add: tw lent)
  have px: "pixel (putImageData ?img ?temp) p =
      (if 0 < alpha c p then (255, 255, 255, 255) else (0, 0, 0, 255))" if "p < ?n" for p
  proof -
    have nth: "?t ! k = (if 0 < data c ! (4 * (k div 4) + 3) then 255 else ?black ! k)"
      if "k < 4 * ?n" for k
      using maskLoop_nth [OF len lenb that, of 0] by simp
    have b: "?black ! k = [0, 0, 0, 255] ! (k mod 4)" if "k < 4 * ?n" for k
      using that by (rule nth_concat_replicate4)
    have k0: "4 * p < 4 * ?n" "4 * p + 1 < 4 * ?n" "4 * p + 2 < 4 * ?n" "4 * p + 3 < 4 * ?n"
      using that by simp_all
    have d: "(4 * p) div 4 = p" "(4 * p + 1) div 4 = p" "(4 * p + 2) div 4 = p"
      "(4 * p + 3) div 4 = p"
      by simp_all
    have m: "(4 * p) mod 4 = 0" "(4 * p + 1) mod 4 = 1" "(4 * p + 2) mod 4 = 2"
      "(4 * p + 3) mod 4 = 3"
      by presburger+
    show ?thesis
      unfolding pixel_def alpha_def dat
      by (simp only: nth [OF k0(1)] nth [OF k0(2)] nth [OF k0(3)] nth [OF k0(4)]
            b [OF k0(1)] b [OF k0(2)] b [OF k0(3)] b [OF k0(4)] d m) simp
  qed
  show ?thesis
    using bm px dat lent by (intro exI [of _ "putImageData ?img ?temp"]) (simp add: tw)
qed

text \<open>
  C1.  For every drawing-surface buffer (a bitmap with pixels, four bytes each),
  compiling it succeeds and gives a mask of the same width and height in which pixel
  \<open>p\<close> is exactly (255, 255, 255, 255) when the alpha of the buffer at \<open>p\<close> is above 0 and
  exactly (0, 0, 0, 255) otherwise, whatever the colour and opacity painted.
\<close>

theorem binaryMask_pixels:
  assumes "well_formed c"
  shows "\<exists>m. binaryMask c = Inr m \<and> width m = width c \<and> height m = height c \<and>
           length (data m) = 4 * width c * height c \<and>
           (\<forall>p < width c * height c.
              pixel m p = (if 0 < alpha c p then (255, 255, 255, 255) else (0, 0, 0, 255)))"
  using assms by (rule binaryMask_correct)

theorem binaryMask_pixels_witness:
  "well_formed halfPainted \<and>
   (\<exists>m. binaryMask halfPainted = Inr m \<and> width m = 2 \<and> height m = 1 \<and>
        pixel m 0 = (255, 255, 255, 255) \<and> pixel m 1 = (0, 0, 0, 255))"
proof -
  have wh: "width halfPainted = 2" "height halfPainted = 1"
    by (simp_all add: halfPainted_def createCanvas_def)
  have wf: "well_formed halfPainted"
    by (simp add: well_formed_def halfPainted_def createCanvas_def)
  have a: "0 < alpha halfPainted 0" "\<not> 0 < alpha halfPainted 1"
    by (simp_all add: alpha_def halfPainted_def)
  from binaryMask_pixels [OF wf] obtain m where m: "binaryMask halfPainted = Inr m"
    "width m = width halfPainted" "height m = height halfPainted"
    and px: "\<And>p. p < width halfPainted * height halfPainted \<Longrightarrow>
      pixel m p = (if 0 < alpha halfPainted p then (255, 255, 255, 255) else (0, 0, 0, 255))"
    by blast
  have "pixel m 0 = (255, 255, 255, 255)" using px [of 0] a by (simp add: wh)
  moreover have "pixel m 1 = (0, 0, 0, 255)" using px [of 1] a by (simp add: wh)
  ultimately show ?thesis using wf m by (simp add: wh)
qed

section \<open>The mask handed to the generation service\<close>

lemma stripPrefix_append: "stripPrefix lit (lit @ r) = Some r"
  by (simp add: stripPrefix_def)

lemma semicolon_base64: "js '';base64,'' = 59 # js ''base64,''"
  by (simp add: js_def)

lemma matchDataPrefix_word:
  assumes "w \<noteq> []" "\<forall>u \<in> set w. isWordChar u"
  shows "matchDataPrefix (js ''data:image/'' @ w @ js '';base64,'' @ rest) = Some rest"
proof -
  let ?r = "w @ js '';base64,'' @ rest"
  have semi: "\<not> isWordChar 59" by (simp add: isWordChar_def)
  have tw: "takeWhile isWordChar ?r = w"
    using assms(2) semi by (simp add: takeWhile_append2 semicolon_base64)
  have dw: "dropWhile isWordChar ?r = js '';base64,'' @ rest"
    using assms(2) semi by (simp add: dropWhile_append2 semicolon_base64)
  show ?thesis
    unfolding matchDataPrefix_def stripPrefix_append option.case tw dw
    using assms(1) by simp
qed

text \<open>
  C8.  The mask part of the request declares the MIME type image/png and carries the
  mask with the data-URI prefix removed: for every string
  \<open>data:image/<word>;base64,<rest>\<close>, with a non-empty word of word characters, the
  data sent is \<open><rest>\<close>; in particular what \<^verbatim>\<open>toDataURL\<close> returns for a canvas with
  pixels is sent as the raw base64 text of the encoder.
\<close>

theorem mask_prefix_stripped:
  assumes "w \<noteq> []" "\<forall>u \<in> set w. isWordChar u"
  shows "cleanMaskBase64 (js ''data:image/'' @ w @ js '';base64,'' @ rest) = rest \<and>
         maskPart (js ''data:image/'' @ w @ js '';base64,'' @ rest) =
           \<lparr>mimeType = js ''image/png'', inline = rest\<rparr> \<and>
         (width c \<noteq> 0 \<and> height c \<noteq> 0 \<longrightarrow>
            maskPart (toDataURL enc c) = \<lparr>mimeType = js ''image/png'', inline = enc c\<rparr>)"
proof -
  have png: "js ''data:image/png;base64,'' = js ''data:image/'' @ js ''png'' @ js '';base64,''"
    by (simp add: js_def)
  have "js ''png'' \<noteq> []" "\<forall>u \<in> set (js ''png''). isWordChar u"
    by (simp_all add: js_def isWordChar_def)
  then have "matchDataPrefix (js ''data:image/png;base64,'' @ enc c) = Some (enc c)"
    unfolding png using matchDataPrefix_word [of "js ''png''" "enc c"] by simp
  then show ?thesis
    using matchDataPrefix_word [OF assms, of rest]
    by (simp add: cleanMaskBase64_def maskPart_def toDataURL_def)
qed

theorem mask_prefix_stripped_witness:
  "js ''jpeg'' \<noteq> [] \<and> list_all isWordChar (js ''jpeg'') \<and>
   cleanMaskBase64 (js ''data:image/jpeg;base64,iVBOR+/8='') = js ''iVBOR+/8=''"
proof -
  have w: "js ''jpeg'' \<noteq> []" "\<forall>u \<in> set (js ''jpeg''). isWordChar u"
    by (simp_all add: js_def isWordChar_def)
  have "js ''data:image/jpeg;base64,iVBOR+/8='' =
      js ''data:image/'' @ js ''jpeg'' @ js '';base64,'' @ js ''iVBOR+/8=''"
    by (simp add: js_def)
  with mask_prefix_stripped [OF w, of "js ''iVBOR+/8=''"] w show ?thesis
    by (simp add: list_all_iff)
qed


section \<open>Snapshots and the history stack\<close>

lemma getImageData_Inr:
  "width c \<noteq> 0 \<Longrightarrow> height c \<noteq> 0 \<Longrightarrow>
   getImageData c = Inr \<lparr>width = width c, height = height c, data = data c\<rparr>"
  by (simp add: getImageData_def)

lemma length_slice_last: "length (slice_last n xs) \<le> n"
  by (simp add: slice_last_def)

lemma set_slice_last: "set (slice_last n xs) \<subseteq> set xs"
  by (simp add: slice_last_def set_drop_subset)

lemma slice_init_butlast: "slice_init xs = butlast xs"
  by (simp add: slice_init_def butlast_conv_take)

lemma nth_last: "xs \<noteq> [] \<Longrightarrow> xs ! (length xs - Suc 0) = last xs"
  by (simp add: last_conv_nth)

section \<open>What each handler does to the state\<close>

lemma startDrawing_result:
  assumes "canvasRef s = Some c" "width c \<noteq> 0" "height c \<noteq> 0"
  shows "\<exists>s' c'. startDrawing e rect s = Inr s' \<and> isDrawing s' \<and>
           history s' = slice_last 10 (history s) @
                          [\<lparr>width = width c, height = height c, data = data c\<rparr>] \<and>
           canvasRef s' = Some c' \<and> width c' = width c \<and> height c' = height c \<and>
           data c' = data c \<and> path c' = path (moveTo (getCoordinates e c rect) (beginPath c)) \<and>
           loading s' = loading s"
  using assms
  by (simp add: startDrawing_def getImageData_Inr Let_def moveTo_def beginPath_def
        split: prod.split option.split)

lemma startDrawing_cases:
  assumes "startDrawing e rect s = Inr s'"
  shows "(canvasRef s = None \<and> s' = s) \<or>
         (\<exists>c c'. canvasRef s = Some c \<and> width c \<noteq> 0 \<and> height c \<noteq> 0 \<and> isDrawing s' \<and>
            history s' = slice_last 10 (history s) @
                           [\<lparr>width = width c, height = height c, data = data c\<rparr>] \<and>
            canvasRef s' = Some c' \<and> width c' = width c \<and> height c' = height c \<and>
            data c' = data c \<and> loading s' = loading s)"
proof (cases "canvasRef s")
  case None
  with assms show ?thesis by (simp add: startDrawing_def)
next
  case (Some c)
  with assms have nz: "width c \<noteq> 0" "height c \<noteq> 0"
    by (auto simp: startDrawing_def getImageData_def split: if_splits)
  from startDrawing_result [OF Some nz, of e rect] assms Some nz show ?thesis by auto
qed

lemma clearRect_size [simp]:
  "width (clearRect c) = width c" "height (clearRect c) = height c"
  "data (clearRect c) = replicate (4 * width c * height c) 0"
  by (simp_all add: clearRect_def)

lemma handleClear_cases:
  assumes "handleClear t s = Inr s'"
  shows "(canvasRef s = None \<and> s' = s) \<or>
         (\<exists>c. canvasRef s = Some c \<and> width c \<noteq> 0 \<and> height c \<noteq> 0 \<and>
            isDrawing s' = isDrawing s \<and>
            history s' = slice_last 10 (history s) @
              [\<lparr>width = width c, height = height c,
                data = (case t of Eager \<Rightarrow> data c
                        | AtRender \<Rightarrow> replicate (4 * width c * height c) 0)\<rparr>] \<and>
            canvasRef s' = Some (clearRect c) \<and> loading s' = loading s)"
  using assms
  by (auto simp: handleClear_def getImageData_def Let_def
        split: option.splits if_splits timing.splits)

lemma draw_history [simp]: "history (draw rast e rect s) = history s"
  by (simp add: draw_def split: option.split)

lemma draw_isDrawing [simp]: "isDrawing (draw rast e rect s) = isDrawing s"
  by (simp add: draw_def split: option.split)

lemma draw_loading [simp]: "loading (draw rast e rect s) = loading s"
  by (simp add: draw_def split: option.split)

lemma lineTo_size [simp]:
  "width (lineTo xy c) = width c" "height (lineTo xy c) = height c" "data (lineTo xy c) = data c"
  by (simp_all add: lineTo_def split: prod.split option.split)

lemma draw_canvas:
  assumes "canvasRef s = Some c"
  shows "\<exists>c'. canvasRef (draw rast e rect s) = Some c' \<and> width c' = width c \<and>
           height c' = height c \<and>
           (length (data c) = 4 * width c * height c \<longrightarrow>
              length (data c') = 4 * width c * height c)"
  using assms by (simp add: draw_def stroke_def)

lemma draw_None [simp]: "canvasRef s = None \<Longrightarrow> draw rast e rect s = s"
  by (simp add: draw_def)

lemma closePath_size [simp]:
  "width (closePath c) = width c" "height (closePath c) = height c"
  "data (closePath c) = data c"
  by (simp_all add: closePath_def split: list.split)

lemma stopDrawing_history [simp]: "history (stopDrawing s) = history s"
  by (simp add: stopDrawing_def split: option.split)

lemma stopDrawing_loading [simp]: "loading (stopDrawing s) = loading s"
  by (simp add: stopDrawing_def split: option.split)

lemma stopDrawing_canvas:
  assumes "canvasRef s = Some c"
  shows "\<exists>c'. canvasRef (stopDrawing s) = Some c' \<and> width c' = width c \<and>
           height c' = height c \<and> data c' = data c"
  using assms by (simp add: stopDrawing_def)

lemma stopDrawing_idle: "canvasRef s \<noteq> None \<Longrightarrow> \<not> isDrawing (stopDrawing s)"
  by (auto simp: stopDrawing_def)

lemma handleUndo_empty: "history s = [] \<Longrightarrow> handleUndo s = s"
  by (simp add: handleUndo_def)

lemma handleUndo_None: "canvasRef s = None \<Longrightarrow> handleUndo s = s"
  by (simp add: handleUndo_def)

lemma handleUndo_pop:
  assumes "history s \<noteq> []" "canvasRef s = Some c"
  shows "handleUndo s =
           s\<lparr>canvasRef := Some (putImageData (last (history s)) c),
             history := butlast (history s)\<rparr>"
  using assms by (simp add: handleUndo_def nth_last slice_init_butlast)

lemma handleUndo_isDrawing [simp]: "isDrawing (handleUndo s) = isDrawing s"
  by (simp add: handleUndo_def split: option.split)

lemma handleUndo_loading [simp]: "loading (handleUndo s) = loading s"
  by (simp add: handleUndo_def split: option.split)

lemma handleUndo_length: "length (history (handleUndo s)) \<le> length (history s)"
  by (simp add: handleUndo_def slice_init_def split: option.split)

lemma handleUndo_canvasRef_None [simp]:
  "canvasRef (handleUndo s) = None \<longleftrightarrow> canvasRef s = None"
  by (simp add: handleUndo_def split: option.split)

section \<open>Screen to buffer coordinates\<close>

text \<open>
  C2.  For a pointer event at client coordinates \<open>(clientX, clientY)\<close> (of the mouse, or
  of the first touch) and a canvas of \<open>width\<close> by \<open>height\<close> pixels shown in a rectangle
  with origin \<open>(left, top)\<close> and a size \<open>rectWidth\<close> by \<open>rectHeight\<close> that is not zero,
  the point computed is
  \<open>((clientX - left) * width / rectWidth, (clientY - top) * height / rectHeight)\<close>: each
  axis is scaled on its own by buffer size over rendered size.  It is the point at
  which a stroke starts its path and the point a move adds to it.
\<close>

theorem screen_to_buffer:
  assumes rect: "rect_width rect \<noteq> 0" "rect_height rect \<noteq> 0"
    and e: "e = MouseEvent clientX clientY \<or> e = TouchEvent (clientX, clientY) touches"
    and xy: "x = (clientX - rect_left rect) * real (width c) / rect_width rect"
      "y = (clientY - rect_top rect) * real (height c) / rect_height rect"
    and c: "canvasRef s = Some c" "width c \<noteq> 0" "height c \<noteq> 0"
  shows "getCoordinates e c rect = (Some x, Some y) \<and>
         x = (clientX - rect_left rect) * (real (width c) / rect_width rect) \<and>
         y = (clientY - rect_top rect) * (real (height c) / rect_height rect) \<and>
         (\<exists>s' c'. startDrawing e rect s = Inr s' \<and> canvasRef s' = Some c' \<and>
            path c' = [[(x, y)]]) \<and>
         (isDrawing s \<longrightarrow>
            (\<exists>c'. canvasRef (draw rast e rect s) = Some c' \<and>
               path c' = (if path c = [] then [[(x, y)]]
                          else butlast (path c) @ [last (path c) @ [(x, y)]])))"
proof -
  have g: "getCoordinates e c rect = (Some x, Some y)"
    using rect e xy by (auto simp: getCoordinates_def js_div_def Let_def)
  from startDrawing_result [OF c, of e rect] obtain s' c' where
    "startDrawing e rect s = Inr s'" "canvasRef s' = Some c'"
    "path c' = path (moveTo (getCoordinates e c rect) (beginPath c))" by blast
  then have sd: "\<exists>s' c'. startDrawing e rect s = Inr s' \<and> canvasRef s' = Some c' \<and>
            path c' = [[(x, y)]]"
    by (simp add: g moveTo_def beginPath_def)
  have dr: "isDrawing s \<longrightarrow>
            (\<exists>c'. canvasRef (draw rast e rect s) = Some c' \<and>
               path c' = (if path c = [] then [[(x, y)]]
                          else butlast (path c) @ [last (path c) @ [(x, y)]]))"
    using c(1) by (simp add: draw_def g lineTo_def stroke_def)
  show ?thesis using g sd dr xy by simp
qed

theorem screen_to_buffer_witness:
  "getCoordinates (MouseEvent 110 70) (createCanvas 800 600) onScreen = (Some 200, Some 100) \<and>
   getCoordinates (TouchEvent (110, 70) []) (createCanvas 800 600) onScreen =
     (Some 200, Some 100) \<and>
   (\<exists>s' c'. startDrawing (MouseEvent 110 70) onScreen
               (initial\<lparr>canvasRef := Some (createCanvas 800 600)\<rparr>) = Inr s' \<and>
      canvasRef s' = Some c' \<and> path c' = [[(200, 100)]])"
proof -
  let ?c = "createCanvas 800 600"
  let ?s = "initial\<lparr>canvasRef := Some ?c\<rparr>"
  have rect: "rect_width onScreen \<noteq> 0" "rect_height onScreen \<noteq> 0"
    by (simp_all add: onScreen_def)
  have x: "(200::real) = (110 - rect_left onScreen) * real (width ?c) / rect_width onScreen"
    and y: "(100::real) = (70 - rect_top onScreen) * real (height ?c) / rect_height onScreen"
    by (simp_all add: onScreen_def createCanvas_def)
  have c: "canvasRef ?s = Some ?c" "width ?c \<noteq> 0" "height ?c \<noteq> 0"
    by (simp_all add: createCanvas_def)
  have m: "MouseEvent 110 70 = MouseEvent 110 70 \<or> MouseEvent 110 70 = TouchEvent (110, 70) []"
    by simp
  have t: "TouchEvent (110, 70) [] = MouseEvent 110 70 \<or>
      TouchEvent (110, 70) [] = TouchEvent (110, 70) []"
    by simp
  from screen_to_buffer [OF rect m x y c] screen_to_buffer [OF rect t x y c]
  show ?thesis by blast
qed

section \<open>Consistency along a run\<close>

lemma consistent_initial: "consistent initial"
  by (simp add: consistent_def initial_def)

lemma consistent_cong:
  assumes "consistent s" "history s' = history s" "canvasRef s' = canvasRef s"
    "loading s' = loading s"
  shows "consistent s'"
  using assms by (simp add: consistent_def)

lemma consistent_push:
  assumes inv: "consistent s" and c: "canvasRef s = Some c"
    and h: "history s' = slice_last 10 (history s) @ [snap]"
    and snap: "width snap = width c" "height snap = height c"
      "length (data snap) = length (data c)"
    and c': "canvasRef s' = Some c'" "width c' = width c" "height c' = height c"
      "length (data c') = length (data c)"
    and l: "loading s' = loading s"
  shows "consistent s'"
proof -
  from inv c have len: "length (data c) = 4 * width c * height c"
    and old: "\<And>h. h \<in> set (history s) \<Longrightarrow>
        width h = width c \<and> height h = height c \<and> length (data h) = 4 * width c * height c"
    and ld: "\<forall>ld \<in> set (loading s). snd ld = []"
    by (auto simp: consistent_def)
  have "set (history s') \<subseteq> insert snap (set (history s))"
    using set_slice_last [of 10 "history s"] by (auto simp: h)
  then have "\<And>h. h \<in> set (history s') \<Longrightarrow>
        width h = width c \<and> height h = height c \<and> length (data h) = 4 * width c * height c"
    using old len snap by fastforce
  then show ?thesis
    using c' len ld l by (auto simp: consistent_def)
qed

lemma consistent_upload:
  assumes "consistent s" "files \<noteq> []"
  shows "consistent (initEffect (render (handleFileUpload files s)))"
proof -
  obtain f rest where files: "files = f # rest" using assms(2) by (cases files) auto
  show ?thesis
  proof (cases "canvasRef s")
    case None
    with assms(1) show ?thesis
      by (simp add: files consistent_def handleFileUpload_def render_def initEffect_def
            createCanvas_def)
  next
    case (Some c)
    with assms(1) show ?thesis
      by (simp add: files consistent_def handleFileUpload_def render_def initEffect_def)
  qed
qed

lemma img_onload_fresh:
  assumes "canvasRef s = Some c0" "naturalWidth img \<noteq> 0" "naturalHeight img \<noteq> 0"
  shows "img_onload (img, []) s =
     Inr (s\<lparr>canvasRef := Some (clearRect (createCanvas (naturalWidth img) (naturalHeight img))),
            history := [\<lparr>width = naturalWidth img, height = naturalHeight img,
                         data = replicate (4 * naturalWidth img * naturalHeight img) 0\<rparr>]\<rparr>)"
  using assms by (simp add: img_onload_def getImageData_def Let_def createCanvas_def)

lemma consistent_onload:
  assumes inv: "consistent s" and k: "k < length (loading s)"
    and r: "img_onload (loading s ! k) (s\<lparr>loading := take k (loading s) @ drop (Suc k) (loading s)\<rparr>) = Inr s'"
  shows "consistent s'"
proof -
  let ?s0 = "s\<lparr>loading := take k (loading s) @ drop (Suc k) (loading s)\<rparr>"
  obtain img h0 where ld: "loading s ! k = (img, h0)" by (cases "loading s ! k")
  from inv k have "snd (loading s ! k) = []" by (simp add: consistent_def)
  with ld have h0: "h0 = []" by simp
  have sub: "set (take k (loading s) @ drop (Suc k) (loading s)) \<subseteq> set (loading s)"
    using set_take_subset [of k "loading s"] set_drop_subset [of "Suc k" "loading s"] by auto
  have inv0: "consistent ?s0"
    using inv sub by (auto simp: consistent_def)
  show ?thesis
  proof (cases "canvasRef s")
    case None
    with r ld inv0 show ?thesis by (simp add: img_onload_def)
  next
    case (Some c0)
    from r ld h0 Some have nz: "naturalWidth img \<noteq> 0" "naturalHeight img \<noteq> 0"
      by (auto simp: img_onload_def getImageData_def Let_def createCanvas_def split: if_splits)
    have "canvasRef ?s0 = Some c0" using Some by simp
    from img_onload_fresh [OF this nz] r ld h0
    have "s' = ?s0\<lparr>canvasRef := Some (clearRect (createCanvas (naturalWidth img) (naturalHeight img))),
            history := [\<lparr>width = naturalWidth img, height = naturalHeight img,
                         data = replicate (4 * naturalWidth img * naturalHeight img) 0\<rparr>]\<rparr>"
      by simp
    then show ?thesis using inv0 by (simp add: consistent_def createCanvas_def)
  qed
qed

lemma consistent_startDrawing:
  assumes "consistent s" "startDrawing e rect s = Inr s'"
  shows "consistent s'"
  using startDrawing_cases [OF assms(2)]
proof
  assume "canvasRef s = None \<and> s' = s"
  with assms(1) show ?thesis by simp
next
  assume "\<exists>c c'. canvasRef s = Some c \<and> width c \<noteq> 0 \<and> height c \<noteq> 0 \<and> isDrawing s' \<and>
            history s' = slice_last 10 (history s) @
                           [\<lparr>width = width c, height = height c, data = data c\<rparr>] \<and>
            canvasRef s' = Some c' \<and> width c' = width c \<and> height c' = height c \<and>
            data c' = data c \<and> loading s' = loading s"
  then obtain c c' where "canvasRef s = Some c"
    "history s' = slice_last 10 (history s) @ [\<lparr>width = width c, height = height c, data = data c\<rparr>]"
    "canvasRef s' = Some c'" "width c' = width c" "height c' = height c" "data c' = data c"
    "loading s' = loading s" by blast
  then show ?thesis
    by (intro consistent_push [OF assms(1), where c = c and c' = c' and
          snap = "\<lparr>width = width c, height = height c, data = data c\<rparr>"]) simp_all
qed

lemma consistent_handleClear:
  assumes "consistent s" "handleClear t s = Inr s'"
  shows "consistent s'"
  using handleClear_cases [OF assms(2)]
proof
  assume "canvasRef s = None \<and> s' = s"
  with assms(1) show ?thesis by simp
next
  let ?snap = "\<lambda>c. \<lparr>width = width c, height = height c,
      data = (case t of Eager \<Rightarrow> data c | AtRender \<Rightarrow> replicate (4 * width c * height c) 0)\<rparr>"
  assume "\<exists>c. canvasRef s = Some c \<and> width c \<noteq> 0 \<and> height c \<noteq> 0 \<and>
            isDrawing s' = isDrawing s \<and>
            history s' = slice_last 10 (history s) @ [?snap c] \<and>
            canvasRef s' = Some (clearRect c) \<and> loading s' = loading s"
  then obtain c where c: "canvasRef s = Some c"
    "history s' = slice_last 10 (history s) @ [?snap c]"
    "canvasRef s' = Some (clearRect c)" "loading s' = loading s" by blast
  from assms(1) c(1) have len: "length (data c) = 4 * width c * height c"
    by (simp add: consistent_def)
  then have "length (data (?snap c)) = length (data c)" by (cases t) simp_all
  with c len show ?thesis
    by (intro consistent_push [OF assms(1), where c = c and c' = "clearRect c" and
          snap = "?snap c"]) simp_all
qed

lemma consistent_draw:
  assumes "consistent s"
  shows "consistent (draw rast e rect s)"
proof (cases "canvasRef s")
  case None
  with assms show ?thesis by simp
next
  case (Some c)
  from draw_canvas [OF Some, of rast e rect] obtain c' where
    c': "canvasRef (draw rast e rect s) = Some c'" "width c' = width c" "height c' = height c"
      "length (data c) = 4 * width c * height c \<longrightarrow> length (data c') = 4 * width c * height c"
    by blast
  with assms Some show ?thesis by (auto simp: consistent_def)
qed

lemma consistent_stopDrawing:
  assumes "consistent s"
  shows "consistent (stopDrawing s)"
proof (cases "canvasRef s")
  case None
  with assms show ?thesis by (simp add: stopDrawing_def)
next
  case (Some c)
  from stopDrawing_canvas [OF Some] obtain c' where
    "canvasRef (stopDrawing s) = Some c'" "width c' = width c" "height c' = height c"
    "data c' = data c" by blast
  with assms Some show ?thesis by (auto simp: consistent_def)
qed

lemma consistent_handleUndo:
  assumes "consistent s"
  shows "consistent (handleUndo s)"
proof (cases "history s = [] \<or> canvasRef s = None")
  case True
  with assms show ?thesis by (auto simp: handleUndo_empty handleUndo_None)
next
  case False
  then obtain c where c: "canvasRef s = Some c" and ne: "history s \<noteq> []" by auto
  have "set (butlast (history s)) \<subseteq> set (history s)"
    by (auto dest: in_set_butlastD)
  with assms c show ?thesis
    by (auto simp: handleUndo_pop [OF ne c] consistent_def)
qed

lemma handleDesignGeneration_fields [simp]:
  "history (handleDesignGeneration r s) = history s"
  "canvasRef (handleDesignGeneration r s) = canvasRef s"
  "loading (handleDesignGeneration r s) = loading s"
  "isDrawing (handleDesignGeneration r s) = isDrawing s"
  by (simp_all add: handleDesignGeneration_def split: option.split)

lemma prepareAndSubmit_fields:
  assumes "prepareAndSubmit enc s = Inr s'"
  shows "history s' = history s \<and> canvasRef s' = canvasRef s \<and> loading s' = loading s \<and>
         isDrawing s' = isDrawing s"
  using assms by (auto simp: prepareAndSubmit_def Let_def split: option.splits sum.splits)

lemma consistent_remount: "consistent (remount s)"
  by (simp add: consistent_def remount_def render_def initEffect_def createCanvas_def
        split: option.split)

lemma consistent_handle:
  assumes "consistent s" "handle rast enc ev s = Inr s'"
  shows "consistent s'"
proof (cases ev)
  case (FileUpload files)
  with assms show ?thesis by (auto simp: consistent_upload)
next
  case (ImgLoad k)
  with assms show ?thesis by (auto simp: consistent_onload split: if_splits)
next
  case (PointerDown e rect)
  with assms show ?thesis by (auto simp: consistent_startDrawing)
next
  case (PointerMove e rect)
  with assms show ?thesis by (auto simp: consistent_draw)
next
  case PointerUp
  with assms show ?thesis by (auto simp: consistent_stopDrawing)
next
  case UndoClick
  with assms show ?thesis by (auto simp: consistent_handleUndo)
next
  case (ClearClick t)
  with assms show ?thesis by (auto simp: consistent_handleClear)
next
  case (BrushSize n)
  with assms show ?thesis by (auto simp: consistent_def)
next
  case (Prompt str)
  with assms show ?thesis by (auto simp: consistent_def)
next
  case GenerateClick
  with assms have "s' = s \<or> prepareAndSubmit enc s = Inr s'" by (auto split: if_splits)
  with assms(1) show ?thesis
    by (auto dest!: prepareAndSubmit_fields intro: consistent_cong)
next
  case Remount
  with assms show ?thesis by (auto simp: consistent_remount)
next
  case StartOver
  with assms show ?thesis by (auto simp: consistent_remount)
qed

lemma consistent_run:
  "consistent s \<Longrightarrow> run rast enc evs s = Inr s' \<Longrightarrow> consistent s'"
proof (induction evs arbitrary: s)
  case Nil
  then show ?case by simp
next
  case (Cons ev evs)
  then show ?case by (auto split: sum.splits dest: consistent_handle)
qed

section \<open>Undo\<close>

lemma replicate_pixels:
  "replicate 4 x = [x, x, x, x]" "replicate 8 x = [x, x, x, x, x, x, x, x]"
  by (simp_all add: eval_nat_numeral)

lemmas run_defs = replicate_pixels initial_def handleFileUpload_def render_def initEffect_def img_onload_def
  startDrawing_def draw_def stopDrawing_def handleUndo_def handleClear_def
  getImageData_def putImageData_def clearRect_def createCanvas_def getCoordinates_def js_div_def
  moveTo_def lineTo_def beginPath_def closePath_def stroke_def slice_last_def slice_init_def
  photo1_def photo2_def onScreen_def coverAll_def Let_def upt_rec

lemma putImageData_replace:
  assumes "width img = width c" "height img = height c"
    and "length (data img) = 4 * width c * height c"
  shows "putImageData img c = c\<lparr>data := data img\<rparr>"
proof -
  have "data (putImageData img c) = data img" using assms by (rule putImageData_same_size)
  then show ?thesis by (simp add: putImageData_def)
qed

lemma run_history_canvas:
  assumes "run rast enc evs initial = Inr s" "history s \<noteq> []"
  shows "\<exists>c. canvasRef s = Some c \<and> width (last (history s)) = width c \<and>
           height (last (history s)) = height c \<and>
           length (data (last (history s))) = 4 * width c * height c"
proof -
  have "consistent s" using consistent_initial assms(1) by (rule consistent_run)
  with assms(2) show ?thesis
    by (auto simp: consistent_def)
qed

text \<open>
  C6.  Undo never raises.  In every state a run can reach, undo on an empty history
  changes nothing at all; on a non-empty history it removes exactly the most recent
  snapshot and the whole bitmap becomes that snapshot's bytes, the size of the canvas
  and the rest of the state staying as they were.
\<close>

theorem undo_empty_or_pop:
  assumes "run rast enc evs initial = Inr s"
  shows "(history s = [] \<longrightarrow> handleUndo s = s) \<and>
         (history s \<noteq> [] \<longrightarrow>
            (\<exists>c. canvasRef s = Some c \<and>
               handleUndo s =
                 s\<lparr>canvasRef := Some (c\<lparr>data := data (last (history s))\<rparr>),
                   history := butlast (history s)\<rparr>))"
proof (intro conjI impI)
  assume "history s = []"
  then show "handleUndo s = s" by (rule handleUndo_empty)
next
  assume ne: "history s \<noteq> []"
  from run_history_canvas [OF assms ne] obtain c where c: "canvasRef s = Some c"
    and fit: "width (last (history s)) = width c" "height (last (history s)) = height c"
      "length (data (last (history s))) = 4 * width c * height c"
    by blast
  from fit have "putImageData (last (history s)) c = c\<lparr>data := data (last (history s))\<rparr>"
    by (rule putImageData_replace)
  with handleUndo_pop [OF ne c] c
  show "\<exists>c. canvasRef s = Some c \<and>
          handleUndo s =
            s\<lparr>canvasRef := Some (c\<lparr>data := data (last (history s))\<rparr>),
              history := butlast (history s)\<rparr>"
    by simp
qed

lemma painted_run:
  "\<exists>s c. run coverAll listBytes
      [FileUpload [photo1], ImgLoad 0, PointerDown (MouseEvent 110 70) onScreen,
       PointerMove (MouseEvent 111 70) onScreen, PointerUp] initial = Inr s \<and>
     canvasRef s = Some c \<and> data c = [255, 0, 0, 128] \<and>
     history s = [\<lparr>width = 1, height = 1, data = [0, 0, 0, 0]\<rparr>,
                  \<lparr>width = 1, height = 1, data = [0, 0, 0, 0]\<rparr>] \<and> \<not> isDrawing s"
  by (simp add: run_defs)

theorem undo_empty_or_pop_witness:
  "handleUndo initial = initial \<and>
   (\<exists>s c c'. run coverAll listBytes
      [FileUpload [photo1], ImgLoad 0, PointerDown (MouseEvent 110 70) onScreen,
       PointerMove (MouseEvent 111 70) onScreen, PointerUp] initial = Inr s \<and>
      canvasRef s = Some c \<and> data c = [255, 0, 0, 128] \<and> length (history s) = 2 \<and>
      canvasRef (handleUndo s) = Some c' \<and> data c' = [0, 0, 0, 0] \<and>
      length (history (handleUndo s)) = 1)"
proof -
  have "run coverAll listBytes [] initial = Inr initial" by simp
  from undo_empty_or_pop [OF this] have a: "handleUndo initial = initial"
    by (simp add: initial_def)
  from painted_run obtain s c where s: "run coverAll listBytes
      [FileUpload [photo1], ImgLoad 0, PointerDown (MouseEvent 110 70) onScreen,
       PointerMove (MouseEvent 111 70) onScreen, PointerUp] initial = Inr s"
    and c: "canvasRef s = Some c" "data c = [255, 0, 0, 128]"
    and h: "history s = [\<lparr>width = 1, height = 1, data = [0, 0, 0, 0]\<rparr>,
                  \<lparr>width = 1, height = 1, data = [0, 0, 0, 0]\<rparr>]"
    by blast
  from undo_empty_or_pop [OF s] h c
  have "handleUndo s = s\<lparr>canvasRef := Some (c\<lparr>data := [0, 0, 0, 0]\<rparr>),
                   history := [\<lparr>width = 1, height = 1, data = [0, 0, 0, 0]\<rparr>]\<rparr>"
    by simp
  then have "canvasRef (handleUndo s) = Some (c\<lparr>data := [0, 0, 0, 0]\<rparr>)"
    "length (history (handleUndo s)) = 1"
    by simp_all
  with a s c h show ?thesis by auto
qed

section \<open>A stroke and its undo\<close>

lemma fold_draw:
  assumes "canvasRef s = Some c"
  shows "history (fold (\<lambda>(e, rect). draw rast e rect) moves s) = history s \<and>
         (\<exists>c'. canvasRef (fold (\<lambda>(e, rect). draw rast e rect) moves s) = Some c' \<and>
            width c' = width c \<and> height c' = height c)"
  using assms
proof (induction moves arbitrary: s c)
  case Nil
  then show ?case by simp
next
  case (Cons m moves)
  obtain e rect where m: "m = (e, rect)" by (cases m)
  from draw_canvas [OF Cons.prems, of rast e rect] obtain c1 where
    c1: "canvasRef (draw rast e rect s) = Some c1" "width c1 = width c" "height c1 = height c"
    by blast
  from Cons.IH [OF c1(1)] c1 show ?case by (simp add: m)
qed

text \<open>
  C4.  From any state whose canvas holds a buffer \<open>B\<close>: a stroke start, any number of
  moves, the end of the stroke and one undo leave the bitmap byte for byte equal to \<open>B\<close>
  at the same size; the snapshot that undo removes is the one the stroke start pushed,
  a copy of \<open>B\<close>.
\<close>

theorem stroke_then_undo:
  assumes c: "canvasRef s = Some c" and wf: "well_formed c"
  shows "\<exists>s1. startDrawing e rect s = Inr s1 \<and>
           (let s3 = stopDrawing (fold (\<lambda>(e', rect'). draw rast e' rect') moves s1);
                s4 = handleUndo s3
            in last (history s3) = \<lparr>width = width c, height = height c, data = data c\<rparr> \<and>
               history s4 = butlast (history s3) \<and>
               history s4 = slice_last 10 (history s) \<and>
               (\<exists>c4. canvasRef s4 = Some c4 \<and> width c4 = width c \<and>
                  height c4 = height c \<and> data c4 = data c))"
proof -
  from wf have nz: "width c \<noteq> 0" "height c \<noteq> 0" and len: "length (data c) = 4 * width c * height c"
    by (simp_all add: well_formed_def)
  let ?snap = "\<lparr>width = width c, height = height c, data = data c\<rparr>"
  from startDrawing_result [OF c nz, of e rect] obtain s1 c1 where
    s1: "startDrawing e rect s = Inr s1" "history s1 = slice_last 10 (history s) @ [?snap]"
      "canvasRef s1 = Some c1" "width c1 = width c" "height c1 = height c"
    by blast
  let ?s2 = "fold (\<lambda>(e', rect'). draw rast e' rect') moves s1"
  from fold_draw [OF s1(3), of rast moves] obtain c2 where
    s2: "history ?s2 = history s1" "canvasRef ?s2 = Some c2" "width c2 = width c1"
      "height c2 = height c1"
    by blast
  let ?s3 = "stopDrawing ?s2"
  from stopDrawing_canvas [OF s2(2)] obtain c3 where
    s3: "canvasRef ?s3 = Some c3" "width c3 = width c2" "height c3 = height c2" by blast
  have h3: "history ?s3 = slice_last 10 (history s) @ [?snap]" using s1 s2 by simp
  then have ne: "history ?s3 \<noteq> []" and l3: "last (history ?s3) = ?snap" by simp_all
  have "putImageData ?snap c3 = c3\<lparr>data := data ?snap\<rparr>"
    by (rule putImageData_replace) (simp_all add: s3 s2 s1 len)
  with handleUndo_pop [OF ne s3(1)] l3
  have s4: "handleUndo ?s3 = ?s3\<lparr>canvasRef := Some (c3\<lparr>data := data c\<rparr>),
       history := butlast (history ?s3)\<rparr>"
    by simp
  show ?thesis
    using s1(1) l3 s4 h3 s3 s2 s1 by (intro exI [of _ s1]) (simp add: Let_def)
qed

theorem stroke_then_undo_witness:
  "well_formed halfPainted \<and>
   (\<exists>s1 c3 c4. startDrawing (MouseEvent 110 70) onScreen
                (initial\<lparr>canvasRef := Some halfPainted\<rparr>) = Inr s1 \<and>
      canvasRef (stopDrawing (draw coverAll (MouseEvent 111 70) onScreen s1)) = Some c3 \<and>
      data c3 = [255, 0, 0, 128, 255, 0, 0, 128] \<and>
      canvasRef (handleUndo (stopDrawing (draw coverAll (MouseEvent 111 70) onScreen s1))) =
        Some c4 \<and>
      data c4 = [255, 0, 0, 128, 0, 0, 0, 0] \<and>
      history (handleUndo (stopDrawing (draw coverAll (MouseEvent 111 70) onScreen s1))) = [])"
proof -
  let ?s = "initial\<lparr>canvasRef := Some halfPainted\<rparr>"
  have c: "canvasRef ?s = Some halfPainted" by simp
  have wf: "well_formed halfPainted"
    by (simp add: well_formed_def halfPainted_def createCanvas_def)
  have h: "history ?s = []" by (simp add: initial_def)
  have d: "data halfPainted = [255, 0, 0, 128, 0, 0, 0, 0]"
    by (simp add: halfPainted_def)
  from stroke_then_undo [OF c wf, of "MouseEvent 110 70" onScreen coverAll
      "[(MouseEvent 111 70, onScreen)]"]
  obtain s1 c4 where s1: "startDrawing (MouseEvent 110 70) onScreen ?s = Inr s1"
    and u: "canvasRef (handleUndo (stopDrawing (draw coverAll (MouseEvent 111 70) onScreen s1))) =
        Some c4" "data c4 = data halfPainted"
      "history (handleUndo (stopDrawing (draw coverAll (MouseEvent 111 70) onScreen s1))) =
         slice_last 10 (history ?s)"
    by (auto simp: Let_def)
  from s1 have "\<exists>c3. canvasRef (stopDrawing (draw coverAll (MouseEvent 111 70) onScreen s1)) = Some c3 \<and>
      data c3 = [255, 0, 0, 128, 255, 0, 0, 128]"
    by (auto simp: run_defs halfPainted_def)
  with wf s1 u d h show ?thesis by (auto simp: slice_last_def)
qed

section \<open>Strokes across undo and clear\<close>

text \<open>
  C7, as the code has it.  Undo and clear do not end a stroke: each leaves
  \<open>isDrawing\<close> as it found it, so a stroke that is active when undo or clear is issued
  is still active after the bitmap has been replaced or reset.  \<^verbatim>\<open>stopDrawing\<close>
  (pointer up, pointer leave, touch end) ends it.
\<close>

theorem undo_clear_keep_stroke:
  "isDrawing (handleUndo s) = isDrawing s \<and>
   (\<forall>t s'. handleClear t s = Inr s' \<longrightarrow> isDrawing s' = isDrawing s) \<and>
   (canvasRef s \<noteq> None \<longrightarrow> \<not> isDrawing (stopDrawing s))"
proof -
  have "isDrawing s' = isDrawing s" if "handleClear t s = Inr s'" for t s'
    using handleClear_cases [OF that] by auto
  then show ?thesis by (simp add: stopDrawing_idle)
qed

lemma stroking_run:
  "\<exists>s. run coverAll listBytes
      [FileUpload [photo1], ImgLoad 0, PointerDown (MouseEvent 110 70) onScreen] initial = Inr s \<and>
     isDrawing s \<and> canvasRef s \<noteq> None"
  by (simp add: run_defs)

theorem undo_clear_keep_stroke_witness:
  "\<exists>s s' s''. run coverAll listBytes
      [FileUpload [photo1], ImgLoad 0, PointerDown (MouseEvent 110 70) onScreen] initial = Inr s \<and>
     isDrawing s \<and> isDrawing (handleUndo s) \<and>
     handleClear AtRender s = Inr s' \<and> isDrawing s' \<and>
     handleClear Eager s = Inr s'' \<and> isDrawing s'' \<and>
     \<not> isDrawing (stopDrawing s)"
proof -
  from stroking_run obtain s where s: "run coverAll listBytes
      [FileUpload [photo1], ImgLoad 0, PointerDown (MouseEvent 110 70) onScreen] initial = Inr s"
    "isDrawing s" "canvasRef s \<noteq> None" by blast
  have "\<exists>s'. handleClear AtRender s = Inr s'" "\<exists>s''. handleClear Eager s = Inr s''"
    using s(1) by (auto simp: run_defs)
  with undo_clear_keep_stroke [of s] s show ?thesis by auto
qed

text \<open>
  A stroke that straddles an undo: after a stroke start and a move, undo restores the
  blank bitmap while the stroke stays active, and the next move paints again.  The
  same stroke stays active across a clear, whichever the timing of its updater.
\<close>

theorem stroke_straddles_undo_and_clear:
  "(case run coverAll listBytes
      [FileUpload [photo1], ImgLoad 0, PointerDown (MouseEvent 110 70) onScreen,
       PointerMove (MouseEvent 111 70) onScreen, UndoClick] initial of
      Inl _ \<Rightarrow> False
    | Inr s \<Rightarrow> isDrawing s \<and> map_option data (canvasRef s) = Some [0, 0, 0, 0] \<and>
        (case handle coverAll listBytes (PointerMove (MouseEvent 112 70) onScreen) s of
           Inl _ \<Rightarrow> False
         | Inr s' \<Rightarrow> isDrawing s' \<and> map_option data (canvasRef s') = Some [255, 0, 0, 128])) \<and>
   (case run coverAll listBytes
      [FileUpload [photo1], ImgLoad 0, PointerDown (MouseEvent 110 70) onScreen,
       PointerMove (MouseEvent 111 70) onScreen, ClearClick AtRender] initial of
      Inl _ \<Rightarrow> False
    | Inr s \<Rightarrow> isDrawing s \<and> map_option data (canvasRef s) = Some [0, 0, 0, 0]) \<and>
   (case run coverAll listBytes
      [FileUpload [photo1], ImgLoad 0, PointerDown (MouseEvent 110 70) onScreen,
       PointerMove (MouseEvent 111 70) onScreen, ClearClick Eager] initial of
      Inl _ \<Rightarrow> False
    | Inr s \<Rightarrow> isDrawing s \<and> map_option data (canvasRef s) = Some [0, 0, 0, 0])"
  by (simp add: run_defs)

section \<open>The bound of the history stack\<close>

lemma replicate_eleven: "replicate 11 x = [x, x, x, x, x, x, x, x, x, x, x]"
  by (simp add: eval_nat_numeral)

lemma funpow_ten: "(f ^^ 10) x = f (f (f (f (f (f (f (f (f (f x)))))))))"
  by (simp add: eval_nat_numeral)

text \<open>
  Eleven strokes on a loaded photo leave eleven snapshots, and the eleventh undo in a
  row still removes one.
\<close>

theorem eleven_snapshots_eleven_undos:
  "(case run coverAll listBytes
      (FileUpload [photo1] # ImgLoad 0 #
       concat (replicate 11 [PointerDown (MouseEvent 110 70) onScreen, PointerUp])) initial of
      Inl _ \<Rightarrow> False
    | Inr s \<Rightarrow> length (history s) = 11 \<and> length (history ((handleUndo ^^ 10) s)) = 1 \<and>
        handleUndo ((handleUndo ^^ 10) s) \<noteq> (handleUndo ^^ 10) s)"
  by (simp add: replicate_eleven funpow_ten run_defs)


lemma handleUndo_history:
  "canvasRef s \<noteq> None \<Longrightarrow> history (handleUndo s) = butlast (history s)"
  by (cases "history s = []") (auto simp: handleUndo_empty handleUndo_pop)

lemma undo_funpow:
  assumes "canvasRef s \<noteq> None"
  shows "canvasRef ((handleUndo ^^ k) s) \<noteq> None \<and>
         history ((handleUndo ^^ k) s) = take (length (history s) - k) (history s)"
proof (induction k)
  case 0
  with assms show ?case by simp
next
  case (Suc k)
  then have "history ((handleUndo ^^ Suc k) s) =
      butlast (take (length (history s) - k) (history s))"
    by (simp add: handleUndo_history)
  also have "\<dots> = take (length (history s) - Suc k) (history s)"
    by (simp add: butlast_take)
  finally show ?case using Suc by simp
qed

lemma push_bound: "length (slice_last 10 xs @ [x]) \<le> 11"
  using length_slice_last [of 10 xs] by simp

lemma guarded_push:
  assumes "canvasRef s = Some c" "startDrawing e rect s = Inr s' \<or> handleClear t s = Inr s'"
  shows "(startDrawing e rect s = Inr s' \<longrightarrow>
            history s' = slice_last 10 (history s) @
              [\<lparr>width = width c, height = height c, data = data c\<rparr>]) \<and>
         (handleClear t s = Inr s' \<longrightarrow>
            history s' = slice_last 10 (history s) @
              [\<lparr>width = width c, height = height c,
                data = (case t of Eager \<Rightarrow> data c
                        | AtRender \<Rightarrow> replicate (4 * width c * height c) 0)\<rparr>]) \<and>
         (\<exists>snapshot. history s' = slice_last 10 (history s) @ [snapshot]) \<and>
         canvasRef s' \<noteq> None"
  using assms startDrawing_cases [of e rect s s'] handleClear_cases [of t s s'] by auto

text \<open>
  C3, as the code has it.  A stroke start or a clear keeps the 10 most recent prior
  snapshots, silently dropping older ones, and pushes the new one: the stack then
  holds at most 11.  (A stroke start pushes the bitmap as it is; a clear pushes the
  bitmap before the clear when its updater runs at once and the cleared bitmap when
  it runs at the next render.)  Each undo that follows removes exactly one, so at
  most 11 undos in a row restore a snapshot; from the eleventh on the stack is empty
  and undo is a no-op.
\<close>

theorem history_keeps_eleven:
  assumes "canvasRef s = Some c" "startDrawing e rect s = Inr s' \<or> handleClear t s = Inr s'"
  shows "(startDrawing e rect s = Inr s' \<longrightarrow>
            history s' = slice_last 10 (history s) @
              [\<lparr>width = width c, height = height c, data = data c\<rparr>]) \<and>
         (handleClear t s = Inr s' \<longrightarrow>
            history s' = slice_last 10 (history s) @
              [\<lparr>width = width c, height = height c,
                data = (case t of Eager \<Rightarrow> data c
                        | AtRender \<Rightarrow> replicate (4 * width c * height c) 0)\<rparr>]) \<and>
         length (history s') \<le> 11 \<and>
         (\<forall>k. history ((handleUndo ^^ k) s') = take (length (history s') - k) (history s')) \<and>
         (\<forall>n \<ge> 11. history ((handleUndo ^^ n) s') = [] \<and>
            handleUndo ((handleUndo ^^ n) s') = (handleUndo ^^ n) s')"
proof -
  note push = guarded_push [OF assms]
  from push obtain snapshot where h: "history s' = slice_last 10 (history s) @ [snapshot]"
    and c': "canvasRef s' \<noteq> None" by blast
  have len: "length (history s') \<le> 11" unfolding h by (rule push_bound)
  have pops: "history ((handleUndo ^^ k) s') = take (length (history s') - k) (history s')" for k
    using undo_funpow [OF c'] by simp
  have "history ((handleUndo ^^ n) s') = [] \<and>
      handleUndo ((handleUndo ^^ n) s') = (handleUndo ^^ n) s'" if "n \<ge> 11" for n
  proof -
    have "history ((handleUndo ^^ n) s') = []" using pops [of n] len that by simp
    then show ?thesis by (simp add: handleUndo_empty)
  qed
  with push len pops show ?thesis by blast
qed

lemma loaded_run:
  "\<exists>s c. run coverAll listBytes [FileUpload [photo1], ImgLoad 0] initial = Inr s \<and>
     canvasRef s = Some c \<and> width c = 1 \<and> height c = 1 \<and> data c = [0, 0, 0, 0] \<and>
     history s = [\<lparr>width = 1, height = 1, data = [0, 0, 0, 0]\<rparr>] \<and>
     targetImage s = Some photo1 \<and> targetImagePreview s = Some photo1 \<and>
     maskBase64 s = None \<and> requests s = [] \<and> step s = WORKSPACE \<and> userPrompt s = []"
  by (simp add: run_defs)

theorem history_keeps_eleven_witness:
  "\<exists>s s' s''. run coverAll listBytes [FileUpload [photo1], ImgLoad 0] initial = Inr s \<and>
     startDrawing (MouseEvent 110 70) onScreen s = Inr s' \<and> length (history s') = 2 \<and>
     handleClear AtRender s' = Inr s'' \<and> length (history s'') = 3 \<and>
     history ((handleUndo ^^ 3) s'') = [] \<and>
     handleUndo ((handleUndo ^^ 11) s'') = (handleUndo ^^ 11) s''"
proof -
  from loaded_run obtain s c where s: "run coverAll listBytes [FileUpload [photo1], ImgLoad 0] initial = Inr s"
    and c: "canvasRef s = Some c" "width c = 1" "height c = 1"
    and h: "history s = [\<lparr>width = 1, height = 1, data = [0, 0, 0, 0]\<rparr>]"
    by blast
  from startDrawing_result [OF c(1), of "MouseEvent 110 70" onScreen] c obtain s' c' where
    s': "startDrawing (MouseEvent 110 70) onScreen s = Inr s'" "canvasRef s' = Some c'"
      "width c' = 1" "height c' = 1"
    by auto
  from history_keeps_eleven [OF c(1) disjI1, OF s'(1), of AtRender] s'(1) h
  have h': "length (history s') = 2" by (simp add: slice_last_def)
  from s'(2-4) obtain s'' where s'': "handleClear AtRender s' = Inr s''"
    by (auto simp: handleClear_def getImageData_def Let_def)
  from history_keeps_eleven [OF s'(2) disjI2, OF s'', of "MouseEvent 110 70" onScreen] s'' h'
  have "length (history s'') = 3" "history ((handleUndo ^^ 3) s'') = []"
    "handleUndo ((handleUndo ^^ 11) s'') = (handleUndo ^^ 11) s''"
    by (simp_all add: slice_last_def)
  with s s' h' s'' show ?thesis by blast
qed



lemma history_remount: "history (remount s) = []"
  by (simp add: remount_def render_def initEffect_def split: option.split)

lemma handle_history_bound:
  assumes "length (history s) \<le> 11" "handle rast enc ev s = Inr s'"
  shows "length (history s') \<le> 11"
proof (cases ev)
  case (FileUpload files)
  with assms show ?thesis
    by (auto simp: handleFileUpload_def render_def initEffect_def split: list.splits option.splits)
next
  case (ImgLoad k)
  with assms show ?thesis
    by (auto simp: img_onload_def Let_def split: if_splits prod.splits option.splits sum.splits)
next
  case (PointerDown e rect)
  with assms startDrawing_cases [of e rect s s'] show ?thesis
    by (auto simp: length_slice_last)
next
  case (PointerMove e rect)
  with assms show ?thesis by auto
next
  case PointerUp
  with assms show ?thesis by auto
next
  case UndoClick
  with assms handleUndo_length [of s] show ?thesis by auto
next
  case (ClearClick t)
  with assms handleClear_cases [of t s s'] show ?thesis
    by (auto simp: length_slice_last)
next
  case (BrushSize n)
  with assms show ?thesis by auto
next
  case (Prompt str)
  with assms show ?thesis by auto
next
  case GenerateClick
  with assms show ?thesis by (auto split: if_splits dest!: prepareAndSubmit_fields)
next
  case Remount
  with assms show ?thesis by (auto simp: history_remount)
next
  case StartOver
  with assms show ?thesis by (auto simp: history_remount)
qed

lemma run_history_bound:
  "length (history s) \<le> 11 \<Longrightarrow> run rast enc evs s = Inr s' \<Longrightarrow> length (history s') \<le> 11"
proof (induction evs arbitrary: s)
  case Nil
  then show ?case by simp
next
  case (Cons ev evs)
  then show ?case by (auto split: sum.splits dest: handle_history_bound)
qed

text \<open>Choosing a photo and letting its image load, from any state.\<close>

lemma load_photo:
  assumes "naturalWidth f \<noteq> 0" "naturalHeight f \<noteq> 0"
  shows "\<exists>s1 s2. handle rast enc (FileUpload (f # fs)) s = Inr s1 \<and> history s1 = [] \<and>
           handle rast enc (ImgLoad (length (loading s))) s1 = Inr s2 \<and>
           canvasRef s2 = Some (clearRect (createCanvas (naturalWidth f) (naturalHeight f))) \<and>
           history s2 = [\<lparr>width = naturalWidth f, height = naturalHeight f,
                            data = replicate (4 * naturalWidth f * naturalHeight f) 0\<rparr>] \<and>
           targetImage s2 = Some f"
proof -
  let ?s1 = "initEffect (render (handleFileUpload (f # fs) s))"
  have s1: "handle rast enc (FileUpload (f # fs)) s = Inr ?s1" by simp
  have f1: "history ?s1 = []" "loading ?s1 = loading s @ [(f, [])]" "targetImage ?s1 = Some f"
    "\<exists>c0. canvasRef ?s1 = Some c0"
    by (simp_all add: handleFileUpload_def render_def initEffect_def split: option.split)
  then obtain c0 where c0: "canvasRef ?s1 = Some c0" by blast
  let ?s0 = "?s1\<lparr>loading := take (length (loading s)) (loading ?s1) @
                          drop (Suc (length (loading s))) (loading ?s1)\<rparr>"
  have "canvasRef ?s0 = Some c0" using c0 by simp
  from img_onload_fresh [OF this assms]
  have "handle rast enc (ImgLoad (length (loading s))) ?s1 =
      Inr (?s0\<lparr>canvasRef := Some (clearRect (createCanvas (naturalWidth f) (naturalHeight f))),
            history := [\<lparr>width = naturalWidth f, height = naturalHeight f,
                         data = replicate (4 * naturalWidth f * naturalHeight f) 0\<rparr>]\<rparr>)"
    by (simp add: f1(2))
  with s1 f1 show ?thesis by simp
qed

text \<open>
  C9.  In every state a run reaches the history holds at most 11 snapshots: loading a
  photo leaves exactly one, the blank bitmap; a stroke start or a clear keeps at most
  the 10 most recent entries and pushes one (for a clear: the bitmap before the clear
  or the cleared one, by the timing of its updater); undo never makes the history
  longer.
\<close>

theorem history_at_most_eleven:
  "(\<forall>s. run rast enc evs initial = Inr s \<longrightarrow> length (history s) \<le> 11) \<and>
   (naturalWidth f \<noteq> 0 \<and> naturalHeight f \<noteq> 0 \<longrightarrow>
      (\<exists>s1 s2. handle rast enc (FileUpload (f # fs)) t = Inr s1 \<and>
         handle rast enc (ImgLoad (length (loading t))) s1 = Inr s2 \<and>
         history s2 = [\<lparr>width = naturalWidth f, height = naturalHeight f,
                          data = replicate (4 * naturalWidth f * naturalHeight f) 0\<rparr>])) \<and>
   (\<forall>c t'. canvasRef t = Some c \<and> startDrawing e rect t = Inr t' \<longrightarrow>
      history t' = slice_last 10 (history t) @
                     [\<lparr>width = width c, height = height c, data = data c\<rparr>]) \<and>
   (\<forall>c t'. canvasRef t = Some c \<and> handleClear tm t = Inr t' \<longrightarrow>
      history t' = slice_last 10 (history t) @
                     [\<lparr>width = width c, height = height c,
                       data = (case tm of Eager \<Rightarrow> data c
                               | AtRender \<Rightarrow> replicate (4 * width c * height c) 0)\<rparr>]) \<and>
   length (slice_last 10 (history t)) \<le> 10 \<and>
   length (history (handleUndo t)) \<le> length (history t)"
proof -
  have a: "\<forall>s. run rast enc evs initial = Inr s \<longrightarrow> length (history s) \<le> 11"
    using run_history_bound [of initial rast enc evs] by (simp add: initial_def)
  have b: "naturalWidth f \<noteq> 0 \<and> naturalHeight f \<noteq> 0 \<longrightarrow>
      (\<exists>s1 s2. handle rast enc (FileUpload (f # fs)) t = Inr s1 \<and>
         handle rast enc (ImgLoad (length (loading t))) s1 = Inr s2 \<and>
         history s2 = [\<lparr>width = naturalWidth f, height = naturalHeight f,
                          data = replicate (4 * naturalWidth f * naturalHeight f) 0\<rparr>])"
    using load_photo [of f rast enc fs t] by blast
  have c: "\<forall>c t'. canvasRef t = Some c \<and> startDrawing e rect t = Inr t' \<longrightarrow>
      history t' = slice_last 10 (history t) @
                     [\<lparr>width = width c, height = height c, data = data c\<rparr>]"
    using guarded_push [of t _ e rect _ tm] by blast
  have d: "\<forall>c t'. canvasRef t = Some c \<and> handleClear tm t = Inr t' \<longrightarrow>
      history t' = slice_last 10 (history t) @
                     [\<lparr>width = width c, height = height c,
                       data = (case tm of Eager \<Rightarrow> data c
                               | AtRender \<Rightarrow> replicate (4 * width c * height c) 0)\<rparr>]"
    using guarded_push [of t _ e rect _ tm] by blast
  from a b c d length_slice_last [of 10 "history t"] handleUndo_length [of t]
  show ?thesis by blast
qed

theorem history_at_most_eleven_witness:
  "\<exists>s s1 s2 s3 s4. run coverAll listBytes
      [FileUpload [photo1], ImgLoad 0, PointerDown (MouseEvent 110 70) onScreen,
       PointerMove (MouseEvent 111 70) onScreen, PointerUp] initial = Inr s \<and>
     length (history s) \<le> 11 \<and>
     handle coverAll listBytes (FileUpload [photo2]) s = Inr s1 \<and>
     handle coverAll listBytes (ImgLoad 0) s1 = Inr s2 \<and>
     history s2 = [\<lparr>width = 2, height = 1, data = [0, 0, 0, 0, 0, 0, 0, 0]\<rparr>] \<and>
     handleClear AtRender s = Inr s3 \<and> length (history s3) = 3 \<and>
     last (history s3) = \<lparr>width = 1, height = 1, data = [0, 0, 0, 0]\<rparr> \<and>
     startDrawing (MouseEvent 110 70) onScreen s = Inr s4 \<and> length (history s4) = 3 \<and>
     last (history s4) = \<lparr>width = 1, height = 1, data = [255, 0, 0, 128]\<rparr> \<and>
     length (history (handleUndo s)) \<le> 2"
proof -
  from painted_run obtain s c where s: "run coverAll listBytes
      [FileUpload [photo1], ImgLoad 0, PointerDown (MouseEvent 110 70) onScreen,
       PointerMove (MouseEvent 111 70) onScreen, PointerUp] initial = Inr s"
    and c: "canvasRef s = Some c" and dc: "data c = [255, 0, 0, 128]"
    and h: "history s = [\<lparr>width = 1, height = 1, data = [0, 0, 0, 0]\<rparr>,
                  \<lparr>width = 1, height = 1, data = [0, 0, 0, 0]\<rparr>]"
    by blast
  have l: "loading s = []" and wh: "width c = 1" "height c = 1"
    using s c by (auto simp: run_defs)
  from c wh obtain s3 where s3: "handleClear AtRender s = Inr s3"
    by (auto simp: handleClear_def getImageData_def Let_def)
  from startDrawing_result [OF c, of "MouseEvent 110 70" onScreen] wh
  obtain s4 where s4: "startDrawing (MouseEvent 110 70) onScreen s = Inr s4" by auto
  have nz: "naturalWidth photo2 \<noteq> 0 \<and> naturalHeight photo2 \<noteq> 0" by (simp add: photo2_def)
  note inst = history_at_most_eleven [of coverAll listBytes
      "[FileUpload [photo1], ImgLoad 0, PointerDown (MouseEvent 110 70) onScreen,
       PointerMove (MouseEvent 111 70) onScreen, PointerUp]" photo2 "[]" s
      "MouseEvent 110 70" onScreen AtRender]
  from inst s have a: "length (history s) \<le> 11" by blast
  from inst nz l obtain s1 s2 where
    b: "handle coverAll listBytes (FileUpload [photo2]) s = Inr s1"
      "handle coverAll listBytes (ImgLoad 0) s1 = Inr s2"
      "history s2 = [\<lparr>width = 2, height = 1, data = [0, 0, 0, 0, 0, 0, 0, 0]\<rparr>]"
    by (auto simp: photo2_def replicate_pixels)
  from inst c s3 have "history s3 = slice_last 10 (history s) @
      [\<lparr>width = width c, height = height c,
        data = (case AtRender of Eager \<Rightarrow> data c
                | AtRender \<Rightarrow> replicate (4 * width c * height c) 0)\<rparr>]"
    by blast
  then have d: "length (history s3) = 3"
    "last (history s3) = \<lparr>width = 1, height = 1, data = [0, 0, 0, 0]\<rparr>"
    by (simp_all add: h wh slice_last_def replicate_pixels)
  from inst c s4 have "history s4 = slice_last 10 (history s) @
      [\<lparr>width = width c, height = height c, data = data c\<rparr>]"
    by blast
  then have d4: "length (history s4) = 3"
    "last (history s4) = \<lparr>width = 1, height = 1, data = [255, 0, 0, 128]\<rparr>"
    by (simp_all add: h wh dc slice_last_def)
  from inst h have e: "length (history (handleUndo s)) \<le> 2" by simp
  from s a b s3 d s4 d4 e show ?thesis by blast
qed

section \<open>Loading another photo\<close>

text \<open>
  C5, as the code has it.  Choosing a photo empties the history at once; when its
  image has loaded, whatever was painted before and whatever the old size, the canvas
  has the size of the new photo with every pixel transparent, and the history holds
  exactly one snapshot: that blank bitmap.
\<close>

theorem reload_resets:
  assumes "naturalWidth f \<noteq> 0" "naturalHeight f \<noteq> 0"
  shows "\<exists>s1 s2 c. handle rast enc (FileUpload (f # fs)) s = Inr s1 \<and> history s1 = [] \<and>
           handle rast enc (ImgLoad (length (loading s))) s1 = Inr s2 \<and>
           canvasRef s2 = Some c \<and> width c = naturalWidth f \<and> height c = naturalHeight f \<and>
           data c = replicate (4 * naturalWidth f * naturalHeight f) 0 \<and>
           (\<forall>p < naturalWidth f * naturalHeight f. pixel c p = (0, 0, 0, 0)) \<and>
           history s2 = [\<lparr>width = naturalWidth f, height = naturalHeight f,
                            data = replicate (4 * naturalWidth f * naturalHeight f) 0\<rparr>]"
proof -
  let ?c = "clearRect (createCanvas (naturalWidth f) (naturalHeight f))"
  from load_photo [OF assms, of rast enc fs s] obtain s1 s2 where
    l: "handle rast enc (FileUpload (f # fs)) s = Inr s1" "history s1 = []"
      "handle rast enc (ImgLoad (length (loading s))) s1 = Inr s2"
      "canvasRef s2 = Some ?c"
      "history s2 = [\<lparr>width = naturalWidth f, height = naturalHeight f,
                            data = replicate (4 * naturalWidth f * naturalHeight f) 0\<rparr>]"
    by blast
  have sz: "width ?c = naturalWidth f" "height ?c = naturalHeight f"
    "data ?c = replicate (4 * naturalWidth f * naturalHeight f) 0"
    by (simp_all add: createCanvas_def)
  have "pixel ?c p = (0, 0, 0, 0)" if "p < naturalWidth f * naturalHeight f" for p
    unfolding pixel_def sz using that by (simp add: mult.assoc)
  with l sz show ?thesis by blast
qed

lemma painted2_run:
  "\<exists>s c. run coverAll listBytes
      [FileUpload [photo2], ImgLoad 0, PointerDown (MouseEvent 110 70) onScreen,
       PointerMove (MouseEvent 111 70) onScreen, PointerUp] initial = Inr s \<and>
     canvasRef s = Some c \<and> width c = 2 \<and> height c = 1 \<and>
     data c = [255, 0, 0, 128, 255, 0, 0, 128] \<and> length (history s) = 2 \<and> loading s = []"
  by (simp add: run_defs)

theorem reload_resets_witness:
  "\<exists>s c s1 s2 c2. run coverAll listBytes
      [FileUpload [photo2], ImgLoad 0, PointerDown (MouseEvent 110 70) onScreen,
       PointerMove (MouseEvent 111 70) onScreen, PointerUp] initial = Inr s \<and>
     canvasRef s = Some c \<and> width c = 2 \<and> data c = [255, 0, 0, 128, 255, 0, 0, 128] \<and>
     length (history s) = 2 \<and>
     handle coverAll listBytes (FileUpload [photo1]) s = Inr s1 \<and> history s1 = [] \<and>
     handle coverAll listBytes (ImgLoad 0) s1 = Inr s2 \<and>
     canvasRef s2 = Some c2 \<and> width c2 = 1 \<and> height c2 = 1 \<and> data c2 = [0, 0, 0, 0] \<and>
     history s2 = [\<lparr>width = 1, height = 1, data = [0, 0, 0, 0]\<rparr>]"
proof -
  from painted2_run obtain s c where s: "run coverAll listBytes
      [FileUpload [photo2], ImgLoad 0, PointerDown (MouseEvent 110 70) onScreen,
       PointerMove (MouseEvent 111 70) onScreen, PointerUp] initial = Inr s"
    "canvasRef s = Some c" "width c = 2" "data c = [255, 0, 0, 128, 255, 0, 0, 128]"
    "length (history s) = 2" and l: "loading s = []"
    by blast
  have nz: "naturalWidth photo1 \<noteq> 0" "naturalHeight photo1 \<noteq> 0" by (simp_all add: photo1_def)
  from reload_resets [OF nz, of coverAll listBytes "[]" s] l obtain s1 s2 c2 where
    "handle coverAll listBytes (FileUpload [photo1]) s = Inr s1" "history s1 = []"
    "handle coverAll listBytes (ImgLoad 0) s1 = Inr s2"
    "canvasRef s2 = Some c2" "width c2 = 1" "height c2 = 1" "data c2 = [0, 0, 0, 0]"
    "history s2 = [\<lparr>width = 1, height = 1, data = [0, 0, 0, 0]\<rparr>]"
    by (auto simp: photo1_def replicate_pixels)
  with s show ?thesis by blast
qed

text \<open>
  After painting on a 2 by 1 photo, choosing a 1 by 1 photo empties the history while
  the canvas still shows the old painting at the old size; once the image has loaded
  the canvas is blank at the new size and the history is not empty.
\<close>

theorem reload_leaves_one_snapshot:
  "(case run coverAll listBytes
      [FileUpload [photo2], ImgLoad 0, PointerDown (MouseEvent 110 70) onScreen,
       PointerMove (MouseEvent 111 70) onScreen, PointerUp, FileUpload [photo1]] initial of
      Inl _ \<Rightarrow> False
    | Inr s \<Rightarrow> history s = [] \<and> map_option width (canvasRef s) = Some 2 \<and>
        map_option data (canvasRef s) = Some [255, 0, 0, 128, 255, 0, 0, 128]) \<and>
   (case run coverAll listBytes
      [FileUpload [photo2], ImgLoad 0, PointerDown (MouseEvent 110 70) onScreen,
       PointerMove (MouseEvent 111 70) onScreen, PointerUp, FileUpload [photo1], ImgLoad 0]
      initial of
      Inl _ \<Rightarrow> False
    | Inr s \<Rightarrow> history s \<noteq> [] \<and> length (history s) = 1 \<and>
        map_option width (canvasRef s) = Some 1 \<and>
        map_option data (canvasRef s) = Some [0, 0, 0, 0])"
  by (simp add: run_defs)

section \<open>Submitting without a stroke\<close>

lemma trim_empty_iff: "trim str = [] \<longleftrightarrow> (\<forall>u \<in> set str. isWhiteSpace u)"
proof
  assume "\<forall>u \<in> set str. isWhiteSpace u"
  then have d: "dropWhile isWhiteSpace str = []" by (simp only: dropWhile_eq_Nil_conv)
  show "trim str = []" unfolding trim_def d by simp
next
  assume t: "trim str = []"
  show "\<forall>u \<in> set str. isWhiteSpace u"
  proof (rule ccontr)
    assume "\<not> (\<forall>u \<in> set str. isWhiteSpace u)"
    then have ne: "dropWhile isWhiteSpace str \<noteq> []" by (simp add: dropWhile_eq_Nil_conv)
    then have "\<not> isWhiteSpace (hd (dropWhile isWhiteSpace str))" by (rule hd_dropWhile)
    moreover have "hd (dropWhile isWhiteSpace str) \<in> set (rev (dropWhile isWhiteSpace str))"
      using ne by simp
    ultimately have "dropWhile isWhiteSpace (rev (dropWhile isWhiteSpace str)) \<noteq> []"
      by (auto simp: dropWhile_eq_Nil_conv)
    with t show False by (simp add: trim_def)
  qed
qed

lemma generateDisabled_iff:
  "generateDisabled s \<longleftrightarrow> targetImage s = None \<or> (\<forall>u \<in> set (userPrompt s). isWhiteSpace u)"
  by (simp add: generateDisabled_def trim_empty_iff)

text \<open>
  With a photo loaded and a prompt that has a character other than white space, the
  button is enabled whether or not anything was painted, and an untouched surface
  compiles to an all-black mask, which the click stores.  The request the click makes
  carries the mask stored before the click: none on a first click, which therefore
  makes no request at all.
\<close>

lemma generate_click_uses_previous_mask:
  assumes photo: "targetImage s = Some f" "targetImagePreview s = Some f"
    and typed: "\<exists>u \<in> set (userPrompt s). \<not> isWhiteSpace u"
    and c: "canvasRef s = Some c" "well_formed c"
    and blank: "\<forall>p < width c * height c. alpha c p = 0"
  shows "\<not> generateDisabled s \<and>
         (\<exists>m s'. binaryMask c = Inr m \<and> width m = width c \<and> height m = height c \<and>
            (\<forall>p < width c * height c. pixel m p = (0, 0, 0, 255)) \<and>
            handle rast enc GenerateClick s = Inr s' \<and>
            maskBase64 s' = Some (toDataURL enc m) \<and>
            (maskBase64 s = None \<longrightarrow>
               requests s' = requests s \<and> step s' = step s \<and>
               isGenerating s' = isGenerating s) \<and>
            (\<forall>old. maskBase64 s = Some old \<and> old \<noteq> [] \<longrightarrow>
               requests s' = requests s @ [\<lparr>targetFile = f, mask = old, prompt = userPrompt s\<rparr>] \<and>
               step s' = RESULT))"
proof -
  have en: "\<not> generateDisabled s" using photo typed by (simp add: generateDisabled_iff)
  from binaryMask_correct [OF c(2)] obtain m where
    m: "binaryMask c = Inr m" "width m = width c" "height m = height c"
    and px: "\<And>p. p < width c * height c \<Longrightarrow>
      pixel m p = (if 0 < alpha c p then (255, 255, 255, 255) else (0, 0, 0, 255))"
    by blast
  have black: "\<forall>p < width c * height c. pixel m p = (0, 0, 0, 255)"
    using px blank by simp
  let ?s' = "handleDesignGeneration s (s\<lparr>maskBase64 := Some (toDataURL enc m)\<rparr>)"
  have h: "handle rast enc GenerateClick s = Inr ?s'"
    using en photo c(1) m(1) by (simp add: prepareAndSubmit_def)
  have mb: "maskBase64 ?s' = Some (toDataURL enc m)"
    by (simp add: handleDesignGeneration_def split: option.split)
  have first: "maskBase64 s = None \<longrightarrow>
      requests ?s' = requests s \<and> step ?s' = step s \<and> isGenerating ?s' = isGenerating s"
    by (simp add: handleDesignGeneration_def photo)
  have later: "\<forall>old. maskBase64 s = Some old \<and> old \<noteq> [] \<longrightarrow>
      requests ?s' = requests s @ [\<lparr>targetFile = f, mask = old, prompt = userPrompt s\<rparr>] \<and>
      step ?s' = RESULT"
    by (simp add: handleDesignGeneration_def photo)
  show ?thesis
    using en m black h mb first later
    by (intro conjI exI [of _ m] exI [of _ ?s']) auto
qed

lemma prompted_run:
  "\<exists>s c. run coverAll listBytes [FileUpload [photo1], ImgLoad 0, Prompt (js ''a'')] initial = Inr s \<and>
     canvasRef s = Some c \<and> width c = 1 \<and> height c = 1 \<and> data c = [0, 0, 0, 0] \<and>
     targetImage s = Some photo1 \<and> targetImagePreview s = Some photo1 \<and>
     maskBase64 s = None \<and> requests s = [] \<and> step s = WORKSPACE \<and> userPrompt s = js ''a''"
  by (simp add: run_defs)

lemma generate_click_example:
  "\<exists>s c m s'. run coverAll listBytes [FileUpload [photo1], ImgLoad 0, Prompt (js ''a'')] initial = Inr s \<and>
     canvasRef s = Some c \<and> data c = [0, 0, 0, 0] \<and> maskBase64 s = None \<and>
     \<not> generateDisabled s \<and>
     binaryMask c = Inr m \<and> pixel m 0 = (0, 0, 0, 255) \<and>
     handle coverAll listBytes GenerateClick s = Inr s' \<and>
     maskBase64 s' = Some (toDataURL listBytes m) \<and>
     requests s' = [] \<and> step s' = WORKSPACE"
proof -
  from prompted_run obtain s c where s: "run coverAll listBytes
      [FileUpload [photo1], ImgLoad 0, Prompt (js ''a'')] initial = Inr s"
    and c: "canvasRef s = Some c" "width c = 1" "height c = 1" "data c = [0, 0, 0, 0]"
    and p: "targetImage s = Some photo1" "targetImagePreview s = Some photo1"
    and st: "maskBase64 s = None" "requests s = []" "step s = WORKSPACE"
    and u: "userPrompt s = js ''a''"
    by blast
  have typed: "\<exists>u \<in> set (userPrompt s). \<not> isWhiteSpace u"
    by (simp add: u js_def isWhiteSpace_def)
  have wf: "well_formed c" by (simp add: well_formed_def c)
  have blank: "\<forall>p < width c * height c. alpha c p = 0" by (simp add: c alpha_def)
  from generate_click_uses_previous_mask [OF p typed c(1) wf blank, of coverAll listBytes]
  obtain m s' where "\<not> generateDisabled s" "binaryMask c = Inr m"
    "\<forall>p < width c * height c. pixel m p = (0, 0, 0, 255)"
    "handle coverAll listBytes GenerateClick s = Inr s'"
    "maskBase64 s' = Some (toDataURL listBytes m)"
    "maskBase64 s = None \<longrightarrow> requests s' = requests s \<and> step s' = step s \<and>
       isGenerating s' = isGenerating s"
    by (elim conjE exE) simp
  with s c st show ?thesis by auto
qed

text \<open>
  C10.  On a fresh screen with a 1 by 1 photo loaded and the prompt \<open>a\<close>, the first
  click on Generate stores the all-black mask and submits nothing; after a stroke over
  the whole photo, a second click submits the all-black mask of the first click, not
  the white mask it has just compiled.
\<close>

theorem first_click_submits_nothing:
  "(case run coverAll listBytes
      [FileUpload [photo1], ImgLoad 0, Prompt (js ''a''), GenerateClick] initial of
      Inl _ \<Rightarrow> False
    | Inr s \<Rightarrow> requests s = [] \<and> step s = WORKSPACE \<and>
        maskBase64 s = Some (js ''data:image/png;base64,'' @ [0, 0, 0, 255])) \<and>
   (case run coverAll listBytes
      [FileUpload [photo1], ImgLoad 0, Prompt (js ''a''), GenerateClick,
       PointerDown (MouseEvent 110 70) onScreen, PointerMove (MouseEvent 111 70) onScreen,
       PointerUp, GenerateClick] initial of
      Inl _ \<Rightarrow> False
    | Inr s \<Rightarrow>
        map mask (requests s) = [js ''data:image/png;base64,'' @ [0, 0, 0, 255]] \<and>
        maskBase64 s = Some (js ''data:image/png;base64,'' @ [255, 255, 255, 255]))"
  by (simp add: run_defs generateDisabled_def trim_def js_def isWhiteSpace_def
        prepareAndSubmit_def binaryMask_def fillRect_def maskLoop.simps toDataURL_def
        listBytes_def handleDesignGeneration_def)

end
